theory Spec2Isabelle
  imports Main "HOL-Library.AList" "HOL-Library.Multiset"
begin

section \<open>Values of the JavaScript run time\<close>

text \<open>
  The only exception the parser and the editor can raise is a \<open>TypeError\<close>: iterating
  or reading a field of \<open>undefined\<close>, or calling a method that does not exist.
  \<open>IllTypedArray\<close> is not an exception of the source: it marks the results of \<open>shift\<close>
  whose children array would hold \<open>undefined\<close> and so is no \<open>SgfTree[]\<close> any more.
\<close>

datatype error = TypeError | IllTypedArray

text \<open>A value of type \<open>string | undefined\<close> is a \<open>string option\<close>; \<open>None\<close> is \<open>undefined\<close>.
  \<open>js_str\<close> is the conversion that \<open>+\<close> and property keys apply to it.\<close>

definition js_str :: "string option \<Rightarrow> string" where
  "js_str s = (case s of None \<Rightarrow> ''undefined'' | Some x \<Rightarrow> x)"

definition andThen :: "error + 'a \<Rightarrow> ('a \<Rightarrow> error + 'b) \<Rightarrow> error + 'b" where
  "andThen r f = (case r of Inl e \<Rightarrow> Inl e | Inr x \<Rightarrow> f x)"

text \<open>
  Modelled from the spec: the sequence helpers \<open>first element\<close> and \<open>is non-empty\<close> of the
  module \<open>./array\<close>, which is not among the sources. \<open>first\<close> of an empty array is
  \<open>undefined\<close>, as reading index 0 of an empty array is.
\<close>

definition first :: "'a list \<Rightarrow> 'a option" where
  "first xs = (case xs of [] \<Rightarrow> None | x # _ \<Rightarrow> Some x)"

definition notEmpty :: "'a list \<Rightarrow> bool" where
  "notEmpty xs = (xs \<noteq> [])"

text \<open>\<open>Array.prototype.join\<close> over strings.\<close>

fun join :: "string \<Rightarrow> string list \<Rightarrow> string" where
  "join sep [] = []"
| "join sep [x] = x"
| "join sep (x # y # ys) = x @ sep @ join sep (y # ys)"

text \<open>\<open>String.prototype.split\<close> with a one-character separator: the empty string splits
  into one empty segment.\<close>

fun split_on :: "char \<Rightarrow> string \<Rightarrow> string list" where
  "split_on sep [] = [[]]"
| "split_on sep (c # cs) =
     (if c = sep then [] # split_on sep cs
      else (c # hd (split_on sep cs)) # tl (split_on sep cs))"

text \<open>\<open>Array.prototype.splice(start, deleteCount, ...items)\<close>: a negative start counts from
  the end, and both numbers are clamped to the array.\<close>

definition splice :: "'a list \<Rightarrow> int \<Rightarrow> int \<Rightarrow> 'a list \<Rightarrow> 'a list" where
  "splice xs start deleteCount items =
     (let len = int (length xs);
          actualStart = (if start < 0 then max (len + start) 0 else min start len);
          actualDelete = min (max deleteCount 0) (len - actualStart)
      in take (nat actualStart) xs @ items @ drop (nat (actualStart + actualDelete)) xs)"

section \<open>The property map\<close>

text \<open>
  Modelled from the spec: the type \<open>SgfProperties\<close> of the module \<open>./sgf\<close>, which is not
  among the sources: a mapping from property codes to either a single string or an
  ordered list of strings. The object is the list of its own properties in the order
  they were first assigned.
\<close>

datatype SgfValue = Single string | Multi "string list"

type_synonym SgfProperties = "(string \<times> SgfValue) list"

text \<open>
  Reading \<open>nodeData[key]\<close> on an object literal finds an own property, or else a member
  of \<open>Object.prototype\<close>, or else \<open>undefined\<close>.
\<close>

definition objectPrototypeKeys :: "string list" where
  "objectPrototypeKeys =
     [''constructor'', ''__defineGetter__'', ''__defineSetter__'', ''hasOwnProperty'',
      ''__lookupGetter__'', ''__lookupSetter__'', ''isPrototypeOf'',
      ''propertyIsEnumerable'', ''toString'', ''valueOf'', ''__proto__'',
      ''toLocaleString'']"

datatype lookup = Undefined | Own SgfValue | Inherited

definition getProp :: "SgfProperties \<Rightarrow> string \<Rightarrow> lookup" where
  "getProp obj k =
     (case map_of obj k of
        Some v \<Rightarrow> Own v
      | None \<Rightarrow> if k \<in> set objectPrototypeKeys then Inherited else Undefined)"

definition setProp :: "SgfProperties \<Rightarrow> string \<Rightarrow> SgfValue \<Rightarrow> SgfProperties" where
  "setProp obj k v = AList.update k v obj"

section \<open>Tokenizer: splitBrackets\<close>

fun splitBrackets_loop :: "string list \<Rightarrow> string \<Rightarrow> string \<Rightarrow> string list" where
  "splitBrackets_loop split currentString [] = split"
| "splitBrackets_loop split currentString (c # s) =
     (if c = CHR ''['' then splitBrackets_loop (split @ [currentString]) ''['' s
      else if c = CHR '']'' then splitBrackets_loop (split @ [currentString]) [] s
      else splitBrackets_loop split (currentString @ [c]) s)"

text \<open>\<open>for (const c of s)\<close> raises a TypeError when \<open>s\<close> is \<open>undefined\<close>.\<close>

definition splitBrackets :: "string option \<Rightarrow> error + string list" where
  "splitBrackets s =
     (case s of None \<Rightarrow> Inl TypeError | Some str \<Rightarrow> Inr (splitBrackets_loop [] [] str))"

section \<open>Node property parser: parseNodeData\<close>

text \<open>
  The loop over the tokens, with the current key and the object built so far.
  \<open>if (nodeData[currentKey])\<close> tests truthiness: an absent property and the empty
  string are falsy, an array and an inherited member are truthy. An inherited member
  is neither a string nor has a method \<open>concat\<close>, so the call raises.
\<close>

fun parseNodeData_loop ::
  "string option \<Rightarrow> SgfProperties \<Rightarrow> string list \<Rightarrow> error + SgfProperties" where
  "parseNodeData_loop currentKey nodeData [] = Inr nodeData"
| "parseNodeData_loop currentKey nodeData (c # cs) =
     (if CHR ''['' \<in> set c then
        (let newDatum = drop 1 c; k = js_str currentKey in
         case getProp nodeData k of
           Own (Single s) \<Rightarrow>
             if s \<noteq> [] then
               parseNodeData_loop currentKey (setProp nodeData k (Multi [s, newDatum])) cs
             else parseNodeData_loop currentKey (setProp nodeData k (Single newDatum)) cs
         | Own (Multi l) \<Rightarrow>
             parseNodeData_loop currentKey (setProp nodeData k (Multi (l @ [newDatum]))) cs
         | Inherited \<Rightarrow> Inl TypeError
         | Undefined \<Rightarrow>
             parseNodeData_loop currentKey (setProp nodeData k (Single newDatum)) cs)
      else parseNodeData_loop (Some c) nodeData cs)"

definition parseNodeData :: "string option \<Rightarrow> error + SgfProperties" where
  "parseNodeData nodeDataAsString =
     andThen (splitBrackets nodeDataAsString)
       (\<lambda>splitData. parseNodeData_loop (first splitData) [] splitData)"

section \<open>nodeDataToString\<close>

text \<open>
  \<open>Object.entries\<close> lists the own properties whose key is an array index first, in
  ascending numeric order, and then the others in the order they were created.
\<close>

definition isDigit :: "char \<Rightarrow> bool" where
  "isDigit c = (48 \<le> (of_char c :: nat) \<and> (of_char c :: nat) \<le> 57)"

definition digitsToNat :: "string \<Rightarrow> nat" where
  "digitsToNat k = foldl (\<lambda>n c. 10 * n + ((of_char c :: nat) - 48)) 0 k"

definition isArrayIndex :: "string \<Rightarrow> bool" where
  "isArrayIndex k =
     (k \<noteq> [] \<and> list_all isDigit k \<and> (k = ''0'' \<or> hd k \<noteq> CHR ''0'')
      \<and> digitsToNat k < 2 ^ 32 - 1)"

definition Object_entries :: "SgfProperties \<Rightarrow> (string \<times> SgfValue) list" where
  "Object_entries obj =
     sort_key (\<lambda>e. digitsToNat (fst e)) (filter (\<lambda>e. isArrayIndex (fst e)) obj)
     @ filter (\<lambda>e. \<not> isArrayIndex (fst e)) obj"

text \<open>The template literal converts a value to a string: an array is its elements
  joined by commas.\<close>

definition valueToString :: "SgfValue \<Rightarrow> string" where
  "valueToString v = (case v of Single s \<Rightarrow> s | Multi l \<Rightarrow> join '','' l)"

definition nodeDataToString :: "SgfProperties \<Rightarrow> string" where
  "nodeDataToString sgfProps =
     foldl (\<lambda>p v. p @ v) []
       (map (\<lambda>e. fst e @ ''['' @ valueToString (snd e) @ '']'') (Object_entries sgfProps))"

section \<open>The tree\<close>

text \<open>
  A node has its properties, its children, its parent and its raw text. The parent
  reference is followed only by the scanner, where the model keeps the open ancestors
  on a stack; everywhere else the source only asks whether a node has a parent, which
  is the field \<open>hasParent\<close>. The raw text is \<open>undefined\<close> after \<open>parseBranch\<close> has
  found no move string.
\<close>

datatype SgfTree =
  SgfTree (data: SgfProperties) (children: "SgfTree list") (hasParent: bool)
    (dataAsString: "string option")

definition set_data :: "SgfProperties \<Rightarrow> SgfTree \<Rightarrow> SgfTree" where
  "set_data d t = SgfTree d (children t) (hasParent t) (dataAsString t)"

definition set_children :: "SgfTree list \<Rightarrow> SgfTree \<Rightarrow> SgfTree" where
  "set_children cs t = SgfTree (data t) cs (hasParent t) (dataAsString t)"

definition set_parent :: "SgfTree \<Rightarrow> SgfTree" where
  "set_parent t = SgfTree (data t) (children t) True (dataAsString t)"

definition set_dataAsString :: "string option \<Rightarrow> SgfTree \<Rightarrow> SgfTree" where
  "set_dataAsString s t = SgfTree (data t) (children t) (hasParent t) s"

text \<open>
  The constructor: with an empty raw text the raw text is derived from the properties,
  otherwise the properties are parsed from the raw text.
\<close>

definition SgfTree_new ::
  "SgfProperties \<Rightarrow> SgfTree list \<Rightarrow> bool \<Rightarrow> string \<Rightarrow> error + SgfTree" where
  "SgfTree_new dat chldrn parent raw =
     (if raw = [] then Inr (SgfTree dat chldrn parent (Some (nodeDataToString dat)))
      else andThen (parseNodeData (Some raw))
             (\<lambda>d. Inr (SgfTree d chldrn parent (Some raw))))"

section \<open>Node-chain expander: parseBranch\<close>

text \<open>
  The loop over the remaining move strings. Each one becomes a new node that is the
  only child of the node before it; the last node of the chain receives the children
  the branch had. The function returns the children array of the node above: the new
  node with everything below it, or the original children when no move string is left.
\<close>

fun parseBranch_loop :: "string list \<Rightarrow> SgfTree list \<Rightarrow> error + SgfTree list" where
  "parseBranch_loop [] chldrn = Inr chldrn"
| "parseBranch_loop (nodeDataAsString # remainingNodes) chldrn =
     andThen (parseNodeData (Some nodeDataAsString)) (\<lambda>d.
     andThen (SgfTree_new d [] True nodeDataAsString) (\<lambda>newChildren.
     andThen (parseBranch_loop remainingNodes chldrn) (\<lambda>below.
       Inr [set_children below newChildren])))"

text \<open>\<open>tree.dataAsString.split\<close> raises when the raw text is \<open>undefined\<close>.\<close>

definition parseBranch :: "SgfTree \<Rightarrow> error + SgfTree" where
  "parseBranch tree =
     (case dataAsString tree of
        None \<Rightarrow> Inl TypeError
      | Some raw \<Rightarrow>
          (let nodesAsString = filter (\<lambda>m. m \<noteq> []) (split_on CHR '';'' raw) in
           andThen (parseBranch_loop (drop 1 nodesAsString) (children tree)) (\<lambda>below.
             Inr (set_children below (set_dataAsString (first nodesAsString) tree)))))"

section \<open>Tree scanner: parseBranches\<close>

text \<open>
  The scanner's state: the current node, its open ancestors (nearest first) and the
  accumulated text. In the source an opened node is pushed onto its parent's children
  at once and then completed in place; nothing else is pushed onto that parent before
  the node is closed, so the model appends the node, as completed, when it closes.
\<close>

record scanner =
  currentTree :: SgfTree
  ancestors :: "SgfTree list"
  currentString :: "string option"

definition openBranch :: "scanner \<Rightarrow> error + scanner" where
  "openBranch st =
     andThen (SgfTree_new [] [] True []) (\<lambda>newTree.
       Inr \<lparr>currentTree = newTree,
            ancestors = set_dataAsString (currentString st) (currentTree st) # ancestors st,
            currentString = Some []\<rparr>)"

definition closeBranch :: "scanner \<Rightarrow> error + scanner" where
  "closeBranch st =
     andThen (parseBranch (set_dataAsString (currentString st) (currentTree st))) (\<lambda>expanded.
     andThen (parseNodeData (dataAsString expanded)) (\<lambda>d.
       (case ancestors st of
          [] \<Rightarrow> Inl TypeError
        | parent # outer \<Rightarrow>
            Inr \<lparr>currentTree = set_children (children parent @ [set_data d expanded]) parent,
                 ancestors = outer,
                 currentString = dataAsString parent\<rparr>)))"

definition scan_char :: "scanner \<Rightarrow> char \<Rightarrow> error + scanner" where
  "scan_char st c =
     (if c = CHR ''('' then openBranch st
      else if c = CHR '')'' then closeBranch st
      else Inr (st\<lparr>currentString := Some (js_str (currentString st) @ [c])\<rparr>))"

fun scan :: "scanner \<Rightarrow> string \<Rightarrow> error + scanner" where
  "scan st [] = Inr st"
| "scan st (c # cs) = andThen (scan_char st c) (\<lambda>st'. scan st' cs)"

definition parseBranches :: "string \<Rightarrow> error + SgfTree" where
  "parseBranches sgf =
     andThen (SgfTree_new [] [] False []) (\<lambda>root.
     andThen (scan \<lparr>currentTree = root, ancestors = [], currentString = Some []\<rparr> sgf)
       (\<lambda>st. Inr (currentTree st)))"

text \<open>\<open>trim\<close> removes white space and line terminators at both ends (those among the
  first 256 code points); \<open>replaceAll\<close> then deletes every newline and tab.\<close>

definition isWhiteSpace :: "char \<Rightarrow> bool" where
  "isWhiteSpace c = ((of_char c :: nat) \<in> set [9, 10, 11, 12, 13, 32, 160])"

definition trim :: "string \<Rightarrow> string" where
  "trim s = rev (dropWhile isWhiteSpace (rev (dropWhile isWhiteSpace s)))"

definition sgfCleanup :: "string \<Rightarrow> string" where
  "sgfCleanup sgf =
     filter (\<lambda>c. c \<noteq> CHR 0x09) (filter (\<lambda>c. c \<noteq> CHR 0x0A) (trim sgf))"

definition parseSgf :: "string \<Rightarrow> error + SgfTree" where
  "parseSgf sgf = parseBranches (sgfCleanup sgf)"

section \<open>Serializer\<close>

text \<open>
  \<open>toSgf\<close> of a node from the texts of its children. A node with no parent joins the
  wrapped children with \<open>join()\<close>, whose separator is a comma when none is given. A
  leaf returns its raw text as it is, \<open>undefined\<close> included.
\<close>

definition toSgf_node :: "bool \<Rightarrow> string option \<Rightarrow> string option list \<Rightarrow> string option" where
  "toSgf_node parent raw texts =
     (if \<not> parent then
        Some (join '','' (map (\<lambda>c. ''(;'' @ js_str c @ '')'') texts))
      else if notEmpty texts then
        (if length texts = 1 then
           Some (js_str raw @ '';'' @ js_str (hd texts))
         else
           Some (js_str raw @ foldl (\<lambda>p c. p @ ''(;'' @ js_str c @ '')'') [] texts))
      else raw)"

fun toSgf :: "SgfTree \<Rightarrow> string option" where
  "toSgf (SgfTree d cs p raw) = toSgf_node p raw (map toSgf cs)"

datatype SgfTreeJson = SgfTreeJson SgfProperties "SgfTreeJson list"

fun toJson :: "SgfTree \<Rightarrow> SgfTreeJson" where
  "toJson (SgfTree d cs p raw) = SgfTreeJson d (map toJson cs)"

section \<open>Tree editor\<close>

text \<open>Coordinates are taken to be integers.\<close>

record TreeCoordinates =
  down :: int
  right :: int

text \<open>
  \<open>getDownToParent\<close> walks \<open>down\<close> times to the first child. The walk reaches
  \<open>undefined\<close> below a node with no children, and raises when it has to step on from
  there.
\<close>

fun getDownToParent_loop :: "nat \<Rightarrow> SgfTree option \<Rightarrow> error + SgfTree option" where
  "getDownToParent_loop 0 currentRoot = Inr currentRoot"
| "getDownToParent_loop (Suc n) currentRoot =
     (case currentRoot of
        None \<Rightarrow> Inl TypeError
      | Some t \<Rightarrow> getDownToParent_loop n (first (children t)))"

definition getDownToParent :: "SgfTree \<Rightarrow> int \<Rightarrow> error + SgfTree option" where
  "getDownToParent this dwn = getDownToParent_loop (nat dwn) (Some this)"

text \<open>
  The editor changes the children array of the node it walked to, in place. In the
  model the change is written back along the same walk: \<open>updateDown n f t\<close> replaces
  the children of the node \<open>n\<close> first-child steps below \<open>t\<close> by \<open>f\<close> of them.
\<close>

fun updateDown :: "nat \<Rightarrow> (SgfTree list \<Rightarrow> SgfTree list) \<Rightarrow> SgfTree \<Rightarrow> SgfTree" where
  "updateDown 0 f t = set_children (f (children t)) t"
| "updateDown (Suc n) f t =
     (case children t of
        [] \<Rightarrow> t
      | c # cs \<Rightarrow> set_children (updateDown n f c # cs) t)"

definition add :: "SgfTree \<Rightarrow> SgfTree \<Rightarrow> TreeCoordinates \<Rightarrow> error + SgfTree" where
  "add this tree coordinates =
     andThen (getDownToParent this (down coordinates)) (\<lambda>parentRoot.
       (case parentRoot of
          None \<Rightarrow> Inl TypeError
        | Some p \<Rightarrow>
            Inr (updateDown (nat (down coordinates))
                   (\<lambda>cs. splice cs (right coordinates - 1) 0 [set_parent tree]) this)))"

definition remove :: "SgfTree \<Rightarrow> TreeCoordinates \<Rightarrow> error + SgfTree" where
  "remove this coordinates =
     andThen (getDownToParent this (down coordinates)) (\<lambda>parentRoot.
       if right coordinates \<noteq> 0 then
         (case parentRoot of
            None \<Rightarrow> Inl TypeError
          | Some p \<Rightarrow>
              Inr (updateDown (nat (down coordinates))
                     (\<lambda>cs. splice cs (right coordinates - 1) 1 []) this))
       else Inr this)"

text \<open>
  \<open>shift\<close> reads the entries at two indices and writes each at the other index. When
  both indices are inside the array the result is the array with the two entries
  exchanged. When both indices are negative both reads give \<open>undefined\<close> and both writes
  set a property that is no element: the elements stay as they are. In every other case
  the source stores \<open>undefined\<close> in an element of the array, which no list of nodes
  represents: the model stops there with \<open>IllTypedArray\<close>.
\<close>

definition swapAt :: "SgfTree list \<Rightarrow> int \<Rightarrow> int \<Rightarrow> error + SgfTree list" where
  "swapAt cs i j =
     (if 0 \<le> i \<and> i < int (length cs) \<and> 0 \<le> j \<and> j < int (length cs) then
        Inr ((cs[nat j := cs ! nat i])[nat i := cs ! nat j])
      else if i < 0 \<and> j < 0 then Inr cs
      else Inl IllTypedArray)"

definition shift :: "SgfTree \<Rightarrow> TreeCoordinates \<Rightarrow> bool \<Rightarrow> error + SgfTree" where
  "shift this coordinates left =
     andThen (getDownToParent this (down coordinates)) (\<lambda>parentRoot.
       (case parentRoot of
          None \<Rightarrow> Inl TypeError
        | Some p \<Rightarrow>
            andThen
              (if left then swapAt (children p) (right coordinates - 1) (right coordinates - 2)
               else swapAt (children p) (right coordinates - 1) (right coordinates))
              (\<lambda>swapped. Inr (updateDown (nat (down coordinates)) (\<lambda>cs. swapped) this))))"

section \<open>Observations used to state the properties\<close>

text \<open>The properties and the raw text of every node of a tree, as a multiset.\<close>

fun labels :: "SgfTree \<Rightarrow> (SgfProperties \<times> string option) multiset" where
  "labels (SgfTree d cs p raw) = {#(d, raw)#} + sum_list (map labels cs)"

section \<open>Well-formed input and the nodes the scanner builds\<close>

text \<open>
  Well-formed input has balanced parentheses: \<open>depthAfter d s\<close> is the nesting depth after
  reading \<open>s\<close> at depth \<open>d\<close>, or \<open>None\<close> when a \<open>)\<close> closes more than was opened.
\<close>

fun depthAfter :: "nat \<Rightarrow> string \<Rightarrow> nat option" where
  "depthAfter d [] = Some d"
| "depthAfter d (c # cs) =
     (if c = CHR ''('' then depthAfter (Suc d) cs
      else if c = CHR '')'' then (case d of 0 \<Rightarrow> None | Suc d' \<Rightarrow> depthAfter d' cs)
      else depthAfter d cs)"

definition balanced :: "string \<Rightarrow> bool" where
  "balanced s = (depthAfter 0 s = Some 0)"

text \<open>
  The characters that can reach the accumulated text of the scanner (no parenthesis, and
  no newline or tab after the clean-up), and those of a move string (no semicolon either).
\<close>

definition plainChar :: "char \<Rightarrow> bool" where
  "plainChar c = (c \<noteq> CHR ''('' \<and> c \<noteq> CHR '')'' \<and> c \<noteq> CHR 0x0A \<and> c \<noteq> CHR 0x09)"

definition moveChar :: "char \<Rightarrow> bool" where
  "moveChar c = (plainChar c \<and> c \<noteq> CHR '';'')"

definition cleanText :: "string option \<Rightarrow> bool" where
  "cleanText s = (case s of None \<Rightarrow> False | Some a \<Rightarrow> list_all plainChar a)"

text \<open>
  A node as the scanner completes it: it has a parent, its raw text is one non-empty move
  string, its properties are that raw text parsed, and so for its descendants.
\<close>

fun good :: "SgfTree \<Rightarrow> bool" where
  "good (SgfTree d cs p raw) =
     (p \<and> (case raw of None \<Rightarrow> False
            | Some r \<Rightarrow> r \<noteq> [] \<and> list_all moveChar r \<and> parseNodeData (Some r) = Inr d)
      \<and> list_all good cs)"

text \<open>
  The invariant of the scanner: the completed children of every open node are good, the
  outermost open node is the root (no parent, no properties), every other open node has a
  parent, and the accumulated texts hold plain characters only.
\<close>

fun stack_ok :: "SgfTree \<Rightarrow> SgfTree list \<Rightarrow> bool" where
  "stack_ok cur [] = (\<not> hasParent cur \<and> data cur = [])"
| "stack_ok cur (p # anc) =
     (hasParent cur \<and> cleanText (dataAsString p) \<and> list_all good (children p) \<and> stack_ok p anc)"

definition scan_inv :: "scanner \<Rightarrow> bool" where
  "scan_inv st = (list_all good (children (currentTree st))
     \<and> stack_ok (currentTree st) (ancestors st) \<and> cleanText (currentString st))"

text \<open>A child as a parenthesized group of the serialization.\<close>

definition wrap :: "SgfTree \<Rightarrow> string" where
  "wrap c = ''(;'' @ js_str (toSgf c) @ '')''"

text \<open>
  The chain of only children below a node: the raw texts along it joined by semicolons,
  the children at its end, and the list of its raw texts.
\<close>

fun spineText :: "SgfTree \<Rightarrow> string" where
  "spineText (SgfTree d [c] p raw) = js_str raw @ CHR '';'' # spineText c"
| "spineText (SgfTree d [] p raw) = js_str raw"
| "spineText (SgfTree d (c1 # c2 # cs) p raw) = js_str raw"

fun spineEnd :: "SgfTree \<Rightarrow> SgfTree list" where
  "spineEnd (SgfTree d [c] p raw) = spineEnd c"
| "spineEnd (SgfTree d [] p raw) = []"
| "spineEnd (SgfTree d (c1 # c2 # cs) p raw) = c1 # c2 # cs"

fun spineRaws :: "SgfTree \<Rightarrow> string list" where
  "spineRaws (SgfTree d [c] p raw) = js_str raw # spineRaws c"
| "spineRaws (SgfTree d [] p raw) = [js_str raw]"
| "spineRaws (SgfTree d (c1 # c2 # cs) p raw) = [js_str raw]"

text \<open>
  What the scanner does with the serialization of a node: reading the text of \<open>n\<close> inside an
  open branch amounts to closing the branch on the chain text of \<open>n\<close>, and reading the
  group of \<open>n\<close> appends \<open>n\<close> to the children of the current node.
\<close>

definition body_scans :: "SgfTree \<Rightarrow> bool" where
  "body_scans n = (\<forall>X anc a rest. children X = [] \<longrightarrow>
      scan \<lparr>currentTree = X, ancestors = anc, currentString = Some a\<rparr>
           (js_str (toSgf n) @ CHR '')'' # rest)
        = andThen (closeBranch \<lparr>currentTree = set_children (spineEnd n) X, ancestors = anc,
                                  currentString = Some (a @ spineText n)\<rparr>)
            (\<lambda>st. scan st rest))"

definition group_scans :: "SgfTree \<Rightarrow> bool" where
  "group_scans n = (\<forall>X anc a rest.
      scan \<lparr>currentTree = X, ancestors = anc, currentString = Some a\<rparr> (wrap n @ rest)
        = scan \<lparr>currentTree = set_children (children X @ [n]) (set_dataAsString (Some a) X),
                ancestors = anc, currentString = Some a\<rparr> rest)"

text \<open>A text with no newline and no tab.\<close>

definition noNT :: "string \<Rightarrow> bool" where
  "noNT s = (CHR 0x0A \<notin> set s \<and> CHR 0x09 \<notin> set s)"

section \<open>Evaluating the parser on the examples of the specification\<close>

lemma parseSgf_chain_example:
  "parseSgf ''(;B[aa];W[bb])'' =
     Inr (SgfTree []
            [SgfTree [(''B'', Single ''aa'')]
               [SgfTree [(''W'', Single ''bb'')] [] True (Some ''W[bb]'')]
               True (Some ''B[aa]'')]
            False (Some []))"
  by code_simp

text \<open>
  C4. Parsing \<open>(;B[aa];W[bb])\<close> yields a root with exactly one child, whose properties
  are \<open>{B: aa}\<close>, which has exactly one child with properties \<open>{W: bb}\<close>, which has no
  children.
\<close>

theorem parseSgf_sequence_expansion:
  "parseSgf ''(;B[aa];W[bb])'' =
     Inr (SgfTree []
            [SgfTree [(''B'', Single ''aa'')]
               [SgfTree [(''W'', Single ''bb'')] [] True (Some ''W[bb]'')]
               True (Some ''B[aa]'')]
            False (Some []))"
  by (rule parseSgf_chain_example)

text \<open>
  C3. The claim: parsing \<open>AB[aa][bb][cc]\<close> yields key \<open>AB\<close> holding the list
  \<open>[aa, bb, cc]\<close>, and parsing \<open>AB[aa]\<close> yields \<open>AB\<close> holding the string \<open>aa\<close>.
  The code at the first input: between \<open>]\<close> and \<open>[\<close> the tokenizer pushes an empty
  token, which the parser takes for a new key, so \<open>AB\<close> keeps the single string \<open>aa\<close>
  and the later values are collected under the empty key. The second input parses as
  the claim says.
\<close>

theorem parseNodeData_multi_value:
  "parseNodeData (Some ''AB[aa][bb][cc]'')
     = Inr [(''AB'', Single ''aa''), ([], Multi [''bb'', ''cc''])]
   \<and> splitBrackets (Some ''AB[aa][bb][cc]'')
     = Inr [''AB'', ''[aa'', [], ''[bb'', [], ''[cc'']
   \<and> parseNodeData (Some ''AB[aa]'') = Inr [(''AB'', Single ''aa'')]"
  by code_simp

text \<open>
  C9. The claim: for a node constructed from a property map alone, parsing the raw text
  derived by the constructor yields an equal property map, also for keys that hold a
  list. The code at the map \<open>{AB: [aa, bb]}\<close>: the template literal writes the list as
  \<open>aa,bb\<close>, so the raw text is \<open>AB[aa,bb]\<close>, which parses to the single string \<open>aa,bb\<close>.
\<close>

theorem constructor_raw_text_of_list:
  "SgfTree_new [(''AB'', Multi [''aa'', ''bb''])] [] False [] =
     Inr (SgfTree [(''AB'', Multi [''aa'', ''bb''])] [] False (Some ''AB[aa,bb]''))
   \<and> parseNodeData (Some ''AB[aa,bb]'') = Inr [(''AB'', Single ''aa,bb'')]"
  by code_simp

text \<open>
  C2. The claim: the text of a root is the concatenation of its wrapped children with
  nothing between them. The code at the root parsed from \<open>(;B[aa])(;B[bb])\<close>: \<open>join()\<close>
  puts a comma between the two groups.
\<close>

theorem toSgf_root_two_children:
  "parseSgf ''(;B[aa])(;B[bb])'' =
     Inr (SgfTree []
            [SgfTree [(''B'', Single ''aa'')] [] True (Some ''B[aa]''),
             SgfTree [(''B'', Single ''bb'')] [] True (Some ''B[bb]'')]
            False (Some []))
   \<and> toSgf (SgfTree []
            [SgfTree [(''B'', Single ''aa'')] [] True (Some ''B[aa]''),
             SgfTree [(''B'', Single ''bb'')] [] True (Some ''B[bb]'')]
            False (Some [])) = Some ''(;B[aa]),(;B[bb])''"
  by code_simp

section \<open>The tokenizer drops the text after the last bracket\<close>

lemma splitBrackets_loop_no_bracket:
  "\<forall>c \<in> set t. c \<noteq> CHR ''['' \<and> c \<noteq> CHR '']'' \<Longrightarrow>
     splitBrackets_loop split cur t = split"
  by (induction t arbitrary: cur) auto

lemma splitBrackets_loop_append:
  "\<forall>c \<in> set t. c \<noteq> CHR ''['' \<and> c \<noteq> CHR '']'' \<Longrightarrow>
     splitBrackets_loop split cur (s @ t) = splitBrackets_loop split cur s"
  by (induction s arbitrary: split cur) (simp_all add: splitBrackets_loop_no_bracket)

lemma parseNodeData_append:
  "\<forall>c \<in> set t. c \<noteq> CHR ''['' \<and> c \<noteq> CHR '']'' \<Longrightarrow>
     parseNodeData (Some (s @ t)) = parseNodeData (Some s)"
  by (simp add: parseNodeData_def splitBrackets_def splitBrackets_loop_append)

text \<open>
  C10. Text without brackets that follows the final \<open>]\<close> of a node's raw text is
  dropped: for every \<open>s\<close> and every \<open>t\<close> with no \<open>[\<close> and no \<open>]\<close>, the node text
  \<open>s]\<close> followed by \<open>t\<close> parses to the same result as \<open>s]\<close>.
\<close>

theorem parseNodeData_trailing_text:
  assumes "\<forall>c \<in> set t. c \<noteq> CHR ''['' \<and> c \<noteq> CHR '']''"
  shows "parseNodeData (Some (s @ '']'' @ t)) = parseNodeData (Some (s @ '']''))"
  using parseNodeData_append [OF assms, of "s @ '']''"] by simp

theorem parseNodeData_trailing_text_witness:
  "parseNodeData (Some ''AB[aa]XY'') = parseNodeData (Some ''AB[aa]'')
   \<and> parseNodeData (Some ''AB[aa]'') = Inr [(''AB'', Single ''aa'')]"
proof -
  have "\<forall>c \<in> set ''XY''. c \<noteq> CHR ''['' \<and> c \<noteq> CHR '']''" by simp
  from parseNodeData_trailing_text [OF this, of "''AB[aa''"]
  have "parseNodeData (Some ''AB[aa]XY'') = parseNodeData (Some ''AB[aa]'')" by simp
  moreover have "parseNodeData (Some ''AB[aa]'') = Inr [(''AB'', Single ''aa'')]"
    by code_simp
  ultimately show ?thesis by simp
qed

section \<open>Node-chain expansion with no move string\<close>

text \<open>
  On a node whose raw text holds no move string (after splitting at \<open>;\<close> and discarding
  the empty segments) \<open>parseBranch\<close> itself returns: it leaves properties, children and
  parent as they were and sets the raw text to the first of no move strings, which is
  \<open>undefined\<close>.
\<close>

lemma parseBranch_no_moves:
  assumes "dataAsString t = Some raw"
    and "filter (\<lambda>m. m \<noteq> []) (split_on CHR '';'' raw) = []"
  shows "parseBranch t = Inr (SgfTree (data t) (children t) (hasParent t) None)"
  using assms
  by (simp add: parseBranch_def andThen_def set_children_def set_dataAsString_def first_def)

text \<open>
  C7. The claim: when node-chain expansion runs on a node whose raw text holds no move
  string (raw text empty, or semicolons only), the operation completes normally and
  leaves the node's properties as the result of parsing an empty string, the empty
  property map. The code: \<open>parseBranch\<close> is called only when the scanner closes a branch,
  and there the statement after it parses the node's raw text, which \<open>parseBranch\<close> has
  just set to \<open>undefined\<close>. Iterating over \<open>undefined\<close> raises a TypeError: for every
  scanner state whose accumulated text holds no move string, closing the branch raises,
  and no property map is ever parsed. So \<open>(;)\<close> and \<open>()\<close> end the parse with a TypeError.
\<close>

theorem closeBranch_no_moves_raises:
  assumes "currentString st = Some raw"
    and "filter (\<lambda>m. m \<noteq> []) (split_on CHR '';'' raw) = []"
  shows "closeBranch st = Inl TypeError"
proof -
  let ?X = "set_dataAsString (currentString st) (currentTree st)"
  have "dataAsString ?X = Some raw" using assms(1) by (simp add: set_dataAsString_def)
  from parseBranch_no_moves [OF this assms(2)]
  have "parseBranch ?X = Inr (SgfTree (data ?X) (children ?X) (hasParent ?X) None)" .
  then show ?thesis
    by (simp add: closeBranch_def andThen_def parseNodeData_def splitBrackets_def)
qed

theorem closeBranch_no_moves_raises_witness:
  "closeBranch \<lparr>currentTree = SgfTree [] [] True (Some []),
                 ancestors = [SgfTree [] [] False (Some [])],
                 currentString = Some '';''\<rparr> = Inl TypeError
   \<and> parseBranch (SgfTree [] [] True (Some '';'')) = Inr (SgfTree [] [] True None)
   \<and> parseNodeData None = Inl TypeError
   \<and> parseSgf ''(;)'' = Inl TypeError
   \<and> parseSgf ''()'' = Inl TypeError"
proof -
  have a: "filter (\<lambda>m. m \<noteq> []) (split_on CHR '';'' '';'') = []" by simp
  have "closeBranch \<lparr>currentTree = SgfTree [] [] True (Some []),
                 ancestors = [SgfTree [] [] False (Some [])],
                 currentString = Some '';''\<rparr> = Inl TypeError"
    by (rule closeBranch_no_moves_raises [OF _ a]) simp
  moreover have "parseBranch (SgfTree [] [] True (Some '';'')) = Inr (SgfTree [] [] True None)"
    by code_simp
  moreover have "parseNodeData None = Inl TypeError" by code_simp
  moreover have "parseSgf ''(;)'' = Inl TypeError" by code_simp
  moreover have "parseSgf ''()'' = Inl TypeError" by code_simp
  ultimately show ?thesis by simp
qed

section \<open>The tree editor\<close>

lemma labels_set_children:
  "labels (set_children cs t) + sum_list (map labels (children t)) = labels t + sum_list (map labels cs)"
  by (cases t) (simp add: set_children_def)

lemma labels_set_parent [simp]: "labels (set_parent t) = labels t"
  by (cases t) (simp add: set_parent_def)

lemma walk_None: "getDownToParent_loop n None \<noteq> Inr (Some p)"
  by (cases n) simp_all

lemma walk_Suc:
  assumes "getDownToParent_loop (Suc n) (Some t) = Inr (Some p)"
  obtains c cs where "children t = c # cs" "getDownToParent_loop n (Some c) = Inr (Some p)"
  using assms by (cases "children t") (auto simp: first_def walk_None)

lemma walk_updateDown:
  "getDownToParent_loop n (Some t) = Inr (Some p) \<Longrightarrow>
     getDownToParent_loop n (Some (updateDown n f t)) = Inr (Some (set_children (f (children p)) p))"
proof (induction n arbitrary: t)
  case 0
  then show ?case by simp
next
  case (Suc n)
  from Suc.prems obtain c cs where c: "children t = c # cs"
    "getDownToParent_loop n (Some c) = Inr (Some p)" by (rule walk_Suc)
  with Suc.IH [OF c(2)] show ?case by (simp add: set_children_def first_def)
qed

lemma labels_updateDown:
  "getDownToParent_loop n (Some t) = Inr (Some p) \<Longrightarrow>
     labels (updateDown n f t) + sum_list (map labels (children p))
       = labels t + sum_list (map labels (f (children p)))"
proof (induction n arbitrary: t)
  case 0
  then show ?case by (simp add: labels_set_children)
next
  case (Suc n)
  from Suc.prems obtain c cs where c: "children t = c # cs"
    "getDownToParent_loop n (Some c) = Inr (Some p)" by (rule walk_Suc)
  define T' where "T' = labels (updateDown (Suc n) f t)"
  define U where "U = labels (updateDown n f c)"
  define P where "P = sum_list (map labels (children p))"
  define F where "F = sum_list (map labels (f (children p)))"
  have e: "updateDown (Suc n) f t = set_children (updateDown n f c # cs) t"
    using c(1) by simp
  from Suc.IH [OF c(2)] have B: "U + P = labels c + F"
    by (simp add: U_def P_def F_def)
  have A: "T' + labels c = labels t + U"
    using c(1) labels_set_children [of "updateDown n f c # cs" t]
    by (simp add: T'_def U_def e)
  have "(T' + P) + (labels c + U) = (T' + labels c) + (U + P)" by (simp add: ac_simps)
  also have "\<dots> = (labels t + U) + (labels c + F)" using A B by simp
  also have "\<dots> = (labels t + F) + (labels c + U)" by (simp add: ac_simps)
  finally have "T' + P = labels t + F" by simp
  then show ?case by (simp add: T'_def P_def F_def)
qed

lemma splice_insert:
  "\<exists>a \<le> length cs. splice cs i 0 [x] = take a cs @ [x] @ drop a cs"
proof -
  define a where "a = nat (if i < 0 then max (int (length cs) + i) 0 else min i (int (length cs)))"
  have "a \<le> length cs" by (auto simp: a_def)
  moreover have "splice cs i 0 [x] = take a cs @ [x] @ drop a cs"
    by (auto simp: splice_def Let_def a_def max_def min_def)
  ultimately show ?thesis by blast
qed

lemma splice_delete_valid:
  "1 \<le> r \<Longrightarrow> r \<le> int (length cs) \<Longrightarrow>
     splice cs (r - 1) 1 [] = take (nat (r - 1)) cs @ drop (nat r) cs"
  by (auto simp: splice_def Let_def max_def min_def nat_add_distrib)

lemma splice_delete:
  "\<exists>a k. splice cs i 1 [] = take a cs @ drop (a + k) cs"
proof -
  define a where "a = (if i < 0 then max (int (length cs) + i) 0 else min i (int (length cs)))"
  define k where "k = min 1 (int (length cs) - a)"
  have "0 \<le> a" "0 \<le> k" by (auto simp: a_def k_def)
  then have "splice cs i 1 [] = take (nat a) cs @ drop (nat a + nat k) cs"
    by (simp add: splice_def Let_def a_def [symmetric] k_def [symmetric] nat_add_distrib)
  then show ?thesis by blast
qed

lemma sum_labels_take_drop:
  "sum_list (map labels cs) = sum_list (map labels (take a cs @ drop (a + k) cs))
      + sum_list (map labels (take k (drop a cs)))"
proof -
  have "cs = take a cs @ take k (drop a cs) @ drop (a + k) cs"
    by (metis append_take_drop_id drop_drop add.commute)
  then have "sum_list (map labels cs)
      = sum_list (map labels (take a cs @ take k (drop a cs) @ drop (a + k) cs))" by simp
  then show ?thesis by (simp add: ac_simps)
qed

lemma sum_labels_swap:
  "i < length cs \<Longrightarrow> j < length cs \<Longrightarrow>
     sum_list (map labels (cs[j := cs ! i, i := cs ! j])) = sum_list (map labels cs)"
proof -
  assume a: "i < length cs" "j < length cs"
  have "sum_list (map labels xs) = sum_mset (image_mset labels (mset xs))" for xs
    by (metis mset_map sum_mset_sum_list)
  then show ?thesis using mset_swap [OF a] by simp
qed


text \<open>
  C5, the claim as stated: on the tree parsed from \<open>(;B[aa];W[bb])\<close>,
  \<open>add(newNode, {down: 1, right: 2})\<close> makes \<open>newNode\<close> the second child of \<open>B[aa]\<close> and
  pushes \<open>W[bb]\<close> to the third position. It does not: \<open>B[aa]\<close> has the one child
  \<open>W[bb]\<close>, the new node is spliced in at index 1, and the children are \<open>W[bb]\<close> first
  and the new node second. There is no third child.
\<close>

theorem add_example_counterexample:
  "add (SgfTree []
            [SgfTree [(''B'', Single ''aa'')]
               [SgfTree [(''W'', Single ''bb'')] [] True (Some ''W[bb]'')]
               True (Some ''B[aa]'')]
            False (Some []))
       (SgfTree [(''C'', Single ''x'')] [] False (Some ''C[x]''))
       \<lparr>down = 1, right = 2\<rparr>
   = Inr (SgfTree []
            [SgfTree [(''B'', Single ''aa'')]
               [SgfTree [(''W'', Single ''bb'')] [] True (Some ''W[bb]''),
                SgfTree [(''C'', Single ''x'')] [] True (Some ''C[x]'')]
               True (Some ''B[aa]'')]
            False (Some []))
   \<and> length [SgfTree [(''W'', Single ''bb'')] [] True (Some ''W[bb]''),
              SgfTree [(''C'', Single ''x'')] [] True (Some ''C[x]'')] = 2
   \<and> [SgfTree [(''W'', Single ''bb'')] [] True (Some ''W[bb]''),
        SgfTree [(''C'', Single ''x'')] [] True (Some ''C[x]'')] ! 0
       = SgfTree [(''W'', Single ''bb'')] [] True (Some ''W[bb]'')"
  by code_simp

text \<open>
  C5, amended: on the tree parsed from \<open>(;B[aa];W[bb])\<close>, \<open>add(newNode, {down: 1, right: 2})\<close>
  makes \<open>newNode\<close> (with its parent set) the second child of \<open>B[aa]\<close>, after \<open>W[bb]\<close>,
  which stays the first child; the properties and the raw text of \<open>B[aa]\<close> and of every
  other node are unchanged.
\<close>

theorem add_example:
  "andThen (parseSgf ''(;B[aa];W[bb])'') (\<lambda>root. add root newNode \<lparr>down = 1, right = 2\<rparr>)
   = Inr (SgfTree []
            [SgfTree [(''B'', Single ''aa'')]
               [SgfTree [(''W'', Single ''bb'')] [] True (Some ''W[bb]''),
                set_parent newNode]
               True (Some ''B[aa]'')]
            False (Some []))"
  by (simp add: parseSgf_chain_example andThen_def add_def getDownToParent_def first_def
      splice_def set_children_def numeral_2_eq_2)

text \<open>
  C6. \<open>remove\<close> walks \<open>down\<close> first-child steps. When \<open>right\<close> is 0 the call changes
  nothing. When \<open>right\<close> is the position of a child of the node reached, the call deletes
  exactly that child, the one at index \<open>right - 1\<close>: the node reached keeps its other
  children in order, and the nodes of the tree are those of before without the nodes of
  the deleted child.
\<close>

theorem remove_spec:
  "(getDownToParent this d = Inr parentRoot \<longrightarrow>
      remove this \<lparr>down = d, right = 0\<rparr> = Inr this)
   \<and> (getDownToParent this d = Inr (Some p) \<and> 1 \<le> r \<and> r \<le> int (length (children p)) \<longrightarrow>
      (\<exists>t'. remove this \<lparr>down = d, right = r\<rparr> = Inr t'
         \<and> getDownToParent t' d
             = Inr (Some (set_children (take (nat (r - 1)) (children p) @ drop (nat r) (children p)) p))
         \<and> labels this = labels t' + labels (children p ! nat (r - 1))))"
proof (intro conjI impI)
  assume "getDownToParent this d = Inr parentRoot"
  then show "remove this \<lparr>down = d, right = 0\<rparr> = Inr this"
    by (simp add: remove_def andThen_def)
next
  assume a: "getDownToParent this d = Inr (Some p) \<and> 1 \<le> r \<and> r \<le> int (length (children p))"
  let ?f = "\<lambda>cs. splice cs (r - 1) 1 []"
  let ?t = "updateDown (nat d) ?f this"
  let ?cs = "take (nat (r - 1)) (children p) @ drop (nat r) (children p)"
  from a have w: "getDownToParent_loop (nat d) (Some this) = Inr (Some p)"
    by (simp add: getDownToParent_def)
  from a have f: "?f (children p) = ?cs" by (simp add: splice_delete_valid)
  from a have r: "remove this \<lparr>down = d, right = r\<rparr> = Inr ?t"
    by (simp add: remove_def andThen_def)
  have g: "getDownToParent ?t d = Inr (Some (set_children ?cs p))"
    using walk_updateDown [OF w, of ?f] f by (simp add: getDownToParent_def)
  from a have n: "nat r = Suc (nat (r - 1))" "nat (r - 1) < length (children p)" by auto
  have "children p = take (nat (r - 1)) (children p) @ children p ! nat (r - 1) # drop (nat r) (children p)"
    using n by (simp add: id_take_nth_drop)
  then have "sum_list (map labels (children p))
      = sum_list (map labels (take (nat (r - 1)) (children p) @ children p ! nat (r - 1) # drop (nat r) (children p)))"
    by simp
  then have s: "sum_list (map labels (children p)) = sum_list (map labels ?cs) + labels (children p ! nat (r - 1))"
    by (simp add: ac_simps)
  have "labels ?t + sum_list (map labels (children p)) = labels this + sum_list (map labels ?cs)"
    using labels_updateDown [OF w, of ?f] f by simp
  then have "labels ?t + labels (children p ! nat (r - 1)) + sum_list (map labels ?cs)
      = labels this + sum_list (map labels ?cs)"
    using s by (simp add: ac_simps)
  then have l: "labels this = labels ?t + labels (children p ! nat (r - 1))"
    by simp
  from r g l show "\<exists>t'. remove this \<lparr>down = d, right = r\<rparr> = Inr t'
         \<and> getDownToParent t' d = Inr (Some (set_children ?cs p))
         \<and> labels this = labels t' + labels (children p ! nat (r - 1))"
    by blast
qed


theorem remove_spec_witness:
  "remove (SgfTree []
            [SgfTree [(''B'', Single ''aa'')]
               [SgfTree [(''W'', Single ''bb'')] [] True (Some ''W[bb]''),
                SgfTree [(''W'', Single ''cc'')] [] True (Some ''W[cc]'')]
               True (Some ''B[aa]'')]
            False (Some []))
      \<lparr>down = 1, right = 0\<rparr>
    = Inr (SgfTree []
            [SgfTree [(''B'', Single ''aa'')]
               [SgfTree [(''W'', Single ''bb'')] [] True (Some ''W[bb]''),
                SgfTree [(''W'', Single ''cc'')] [] True (Some ''W[cc]'')]
               True (Some ''B[aa]'')]
            False (Some []))
   \<and> (\<exists>t'. remove (SgfTree []
            [SgfTree [(''B'', Single ''aa'')]
               [SgfTree [(''W'', Single ''bb'')] [] True (Some ''W[bb]''),
                SgfTree [(''W'', Single ''cc'')] [] True (Some ''W[cc]'')]
               True (Some ''B[aa]'')]
            False (Some []))
         \<lparr>down = 1, right = 1\<rparr> = Inr t'
       \<and> getDownToParent t' 1
           = Inr (Some (SgfTree [(''B'', Single ''aa'')]
                          [SgfTree [(''W'', Single ''cc'')] [] True (Some ''W[cc]'')]
                          True (Some ''B[aa]''))))"
proof -
  let ?b = "SgfTree [(''B'', Single ''aa'')]
               [SgfTree [(''W'', Single ''bb'')] [] True (Some ''W[bb]''),
                SgfTree [(''W'', Single ''cc'')] [] True (Some ''W[cc]'')]
               True (Some ''B[aa]'')"
  let ?t = "SgfTree [] [?b] False (Some [])"
  have w: "getDownToParent ?t 1 = Inr (Some ?b)"
    by (simp add: getDownToParent_def first_def)
  have v: "(1::int) \<le> 1 \<and> (1::int) \<le> int (length (children ?b))" by simp
  from remove_spec [of ?t 1 "Some ?b" ?b 1] w v
  have "remove ?t \<lparr>down = 1, right = 0\<rparr> = Inr ?t
    \<and> (\<exists>t'. remove ?t \<lparr>down = 1, right = 1\<rparr> = Inr t'
         \<and> getDownToParent t' 1
             = Inr (Some (SgfTree [(''B'', Single ''aa'')]
                          [SgfTree [(''W'', Single ''cc'')] [] True (Some ''W[cc]'')]
                          True (Some ''B[aa]'')))
         \<and> labels ?t = labels t' + labels (children ?b ! nat (1 - 1)))"
    by (simp add: set_children_def)
  then show ?thesis by blast
qed

text \<open>
  C8. For valid coordinates the editor operations return, and they leave the properties
  and the raw text of every node as they were: after \<open>add\<close> the nodes are those of the
  tree and of the inserted tree, after \<open>remove\<close> those of the tree without the ones
  that went, after \<open>shift\<close> exactly those of the tree.
\<close>

theorem editor_frame:
  "getDownToParent this (down c) = Inr (Some p) \<longrightarrow>
     (\<exists>t'. add this tree c = Inr t' \<and> labels t' = labels this + labels tree)
   \<and> (\<exists>t' gone. remove this c = Inr t' \<and> labels this = labels t' + gone)
   \<and> (1 \<le> right c \<and> right c \<le> int (length (children p))
        \<and> (if left then 2 \<le> right c else right c < int (length (children p))) \<longrightarrow>
        (\<exists>t'. shift this c left = Inr t' \<and> labels t' = labels this))"
proof (intro impI conjI)
  assume a: "getDownToParent this (down c) = Inr (Some p)"
  then have w: "getDownToParent_loop (nat (down c)) (Some this) = Inr (Some p)"
    by (simp add: getDownToParent_def)
  show "\<exists>t'. add this tree c = Inr t' \<and> labels t' = labels this + labels tree"
  proof -
    let ?f = "\<lambda>cs. splice cs (right c - 1) 0 [set_parent tree]"
    obtain k where k: "?f (children p) = take k (children p) @ [set_parent tree] @ drop k (children p)"
      using splice_insert [of "children p" "right c - 1" "set_parent tree"] by blast
    have e: "sum_list (map labels (take k (children p))) + sum_list (map labels (drop k (children p)))
        = sum_list (map labels (children p))"
      by (metis append_take_drop_id map_append sum_list_append)
    have "sum_list (map labels (?f (children p)))
        = (sum_list (map labels (take k (children p))) + sum_list (map labels (drop k (children p))))
          + labels tree"
      unfolding k by (simp add: ac_simps)
    then have "sum_list (map labels (?f (children p)))
        = sum_list (map labels (children p)) + labels tree"
      using e by simp
    with labels_updateDown [OF w, of ?f]
    have "labels (updateDown (nat (down c)) ?f this) + sum_list (map labels (children p))
        = (labels this + labels tree) + sum_list (map labels (children p))"
      by (simp add: ac_simps)
    then have "labels (updateDown (nat (down c)) ?f this) = labels this + labels tree"
      by simp
    then show ?thesis using a by (simp add: add_def andThen_def)
  qed
  show "\<exists>t' gone. remove this c = Inr t' \<and> labels this = labels t' + gone"
  proof (cases "right c = 0")
    case True
    then have "remove this c = Inr this" using a by (simp add: remove_def andThen_def)
    then have "remove this c = Inr this \<and> labels this = labels this + {#}" by simp
    then show ?thesis by blast
  next
    case False
    let ?f = "\<lambda>cs. splice cs (right c - 1) 1 []"
    obtain k n where k: "?f (children p) = take k (children p) @ drop (k + n) (children p)"
      using splice_delete [of "children p" "right c - 1"] by blast
    let ?gone = "sum_list (map labels (take n (drop k (children p))))"
    have s: "sum_list (map labels (children p))
        = sum_list (map labels (?f (children p))) + ?gone"
      unfolding k by (rule sum_labels_take_drop)
    from labels_updateDown [OF w, of ?f]
    have "labels (updateDown (nat (down c)) ?f this) + sum_list (map labels (children p))
        = labels this + sum_list (map labels (?f (children p)))" .
    then have "(labels (updateDown (nat (down c)) ?f this) + ?gone)
          + sum_list (map labels (?f (children p)))
        = labels this + sum_list (map labels (?f (children p)))"
      using s by (simp add: ac_simps)
    then have "labels this = labels (updateDown (nat (down c)) ?f this) + ?gone"
      by simp
    moreover have "remove this c = Inr (updateDown (nat (down c)) ?f this)"
      using a False by (simp add: remove_def andThen_def)
    ultimately show ?thesis by blast
  qed
  assume v: "1 \<le> right c \<and> right c \<le> int (length (children p))
        \<and> (if left then 2 \<le> right c else right c < int (length (children p)))"
  show "\<exists>t'. shift this c left = Inr t' \<and> labels t' = labels this"
  proof -
    define i where "i = nat (right c - 1)"
    define j where "j = (if left then nat (right c - 2) else nat (right c))"
    let ?sw = "(children p)[j := children p ! i, i := children p ! j]"
    from v have ij: "i < length (children p)" "j < length (children p)"
      by (auto simp: i_def j_def split: if_splits)
    from v have sw: "(if left then swapAt (children p) (right c - 1) (right c - 2)
               else swapAt (children p) (right c - 1) (right c)) = Inr ?sw"
      by (auto simp: swapAt_def i_def j_def)
    have "labels (updateDown (nat (down c)) (\<lambda>cs. ?sw) this) + sum_list (map labels (children p))
        = labels this + sum_list (map labels ?sw)"
      by (rule labels_updateDown [OF w])
    then have "labels (updateDown (nat (down c)) (\<lambda>cs. ?sw) this) = labels this"
      using sum_labels_swap [OF ij] by simp
    moreover have "shift this c left = Inr (updateDown (nat (down c)) (\<lambda>cs. ?sw) this)"
      using a sw by (simp add: shift_def andThen_def)
    ultimately show ?thesis by simp
  qed
qed

theorem editor_frame_witness:
  "(\<exists>t'. add (SgfTree []
            [SgfTree [(''B'', Single ''aa'')]
               [SgfTree [(''W'', Single ''bb'')] [] True (Some ''W[bb]''),
                SgfTree [(''W'', Single ''cc'')] [] True (Some ''W[cc]'')]
               True (Some ''B[aa]'')]
            False (Some []))
          (SgfTree [(''C'', Single ''x'')] [] False (Some ''C[x]''))
          \<lparr>down = 1, right = 1\<rparr> = Inr t'
        \<and> labels t' = labels (SgfTree []
            [SgfTree [(''B'', Single ''aa'')]
               [SgfTree [(''W'', Single ''bb'')] [] True (Some ''W[bb]''),
                SgfTree [(''W'', Single ''cc'')] [] True (Some ''W[cc]'')]
               True (Some ''B[aa]'')]
            False (Some []))
          + labels (SgfTree [(''C'', Single ''x'')] [] False (Some ''C[x]'')))
   \<and> (\<exists>t' gone. remove (SgfTree []
            [SgfTree [(''B'', Single ''aa'')]
               [SgfTree [(''W'', Single ''bb'')] [] True (Some ''W[bb]''),
                SgfTree [(''W'', Single ''cc'')] [] True (Some ''W[cc]'')]
               True (Some ''B[aa]'')]
            False (Some []))
          \<lparr>down = 1, right = 1\<rparr> = Inr t'
        \<and> labels (SgfTree []
            [SgfTree [(''B'', Single ''aa'')]
               [SgfTree [(''W'', Single ''bb'')] [] True (Some ''W[bb]''),
                SgfTree [(''W'', Single ''cc'')] [] True (Some ''W[cc]'')]
               True (Some ''B[aa]'')]
            False (Some [])) = labels t' + gone)
   \<and> (\<exists>t'. shift (SgfTree []
            [SgfTree [(''B'', Single ''aa'')]
               [SgfTree [(''W'', Single ''bb'')] [] True (Some ''W[bb]''),
                SgfTree [(''W'', Single ''cc'')] [] True (Some ''W[cc]'')]
               True (Some ''B[aa]'')]
            False (Some []))
          \<lparr>down = 1, right = 1\<rparr> False = Inr t'
        \<and> labels t' = labels (SgfTree []
            [SgfTree [(''B'', Single ''aa'')]
               [SgfTree [(''W'', Single ''bb'')] [] True (Some ''W[bb]''),
                SgfTree [(''W'', Single ''cc'')] [] True (Some ''W[cc]'')]
               True (Some ''B[aa]'')]
            False (Some [])))"
proof -
  let ?b = "SgfTree [(''B'', Single ''aa'')]
               [SgfTree [(''W'', Single ''bb'')] [] True (Some ''W[bb]''),
                SgfTree [(''W'', Single ''cc'')] [] True (Some ''W[cc]'')]
               True (Some ''B[aa]'')"
  let ?t = "SgfTree [] [?b] False (Some [])"
  let ?n = "SgfTree [(''C'', Single ''x'')] [] False (Some ''C[x]'')"
  let ?c = "\<lparr>down = 1, right = 1\<rparr>"
  have w: "getDownToParent ?t (down ?c) = Inr (Some ?b)"
    by (simp add: getDownToParent_def first_def)
  have v: "1 \<le> right ?c \<and> right ?c \<le> int (length (children ?b))
        \<and> (if False then 2 \<le> right ?c else right ?c < int (length (children ?b)))"
    by simp
  from editor_frame [of ?t ?c ?b ?n False] w v
  show ?thesis by blast
qed

section \<open>Parsing the serialization of a parsed tree\<close>

subsection \<open>Sequencing of results\<close>

lemma andThen_Inr_iff: "andThen r f = Inr y \<longleftrightarrow> (\<exists>x. r = Inr x \<and> f x = Inr y)"
  by (cases r) (simp_all add: andThen_def)

lemma andThen_Inr [simp]: "andThen (Inr x) f = f x"
  by (simp add: andThen_def)

lemma andThen_Inl [simp]: "andThen (Inl e) f = Inl e"
  by (simp add: andThen_def)

lemma SgfTree_new_nonempty:
  "raw \<noteq> [] \<Longrightarrow> SgfTree_new d cs p raw = Inr t \<longleftrightarrow>
     (\<exists>d'. parseNodeData (Some raw) = Inr d' \<and> t = SgfTree d' cs p (Some raw))"
  by (auto simp: SgfTree_new_def andThen_Inr_iff)

lemma SgfTree_new_empty [simp]:
  "SgfTree_new [] cs p [] = Inr (SgfTree [] cs p (Some []))"
  by (simp add: SgfTree_new_def nodeDataToString_def Object_entries_def)

subsection \<open>The invariant of the scanner\<close>

text \<open>
  Closing a branch completes a good node: its raw text is the first move string of the
  accumulated text, and the chain below it is built from the other move strings.
\<close>

lemma parseBranch_loop_good:
  "list_all (\<lambda>m. m \<noteq> [] \<and> list_all moveChar m) ms \<Longrightarrow> list_all good cs \<Longrightarrow>
     parseBranch_loop ms cs = Inr below \<Longrightarrow> list_all good below"
proof (induction ms arbitrary: below)
  case Nil
  then show ?case by simp
next
  case (Cons m ms)
  from Cons.prems(1) have m: "m \<noteq> []" "list_all moveChar m"
    and ms: "list_all (\<lambda>m. m \<noteq> [] \<and> list_all moveChar m) ms" by simp_all
  from Cons.prems(3) obtain d nn below' where
    d: "parseNodeData (Some m) = Inr d" and nn: "SgfTree_new d [] True m = Inr nn"
    and b: "parseBranch_loop ms cs = Inr below'" and r: "below = [set_children below' nn]"
    by (auto simp: andThen_Inr_iff)
  from nn m(1) d have "nn = SgfTree d [] True (Some m)"
    by (simp add: SgfTree_new_nonempty)
  moreover have "list_all good below'" using Cons.IH [OF ms Cons.prems(2) b] .
  ultimately show ?case using r m d by (simp add: set_children_def)
qed

lemma split_on_not_Nil [simp]: "split_on sep s \<noteq> []"
  by (induction s) simp_all

lemma split_on_moves:
  "list_all plainChar a \<Longrightarrow> list_all (list_all moveChar) (split_on CHR '';'' a)"
proof (induction a)
  case Nil
  then show ?case by simp
next
  case (Cons c a)
  then have ih: "list_all (list_all moveChar) (split_on CHR '';'' a)" by simp
  obtain w ws where w: "split_on CHR '';'' a = w # ws"
    by (cases "split_on CHR '';'' a") simp_all
  show ?case
  proof (cases "c = CHR '';''")
    case True
    then show ?thesis using ih by simp
  next
    case False
    with Cons.prems have "moveChar c" by (simp add: moveChar_def)
    then show ?thesis using False ih w by simp
  qed
qed

lemma filter_moves:
  "list_all plainChar a \<Longrightarrow>
     list_all (\<lambda>m. m \<noteq> [] \<and> list_all moveChar m) (filter (\<lambda>m. m \<noteq> []) (split_on CHR '';'' a))"
proof -
  assume "list_all plainChar a"
  then have "list_all (list_all moveChar) (split_on CHR '';'' a)" by (rule split_on_moves)
  then show ?thesis by (induction "split_on CHR '';'' a") (auto simp: list_all_iff)
qed

lemma closeBranch_inv:
  assumes "scan_inv st" and "closeBranch st = Inr st'"
  shows "scan_inv st'"
proof -
  obtain a where a: "currentString st = Some a" "list_all plainChar a"
    using assms(1) by (auto simp: scan_inv_def cleanText_def split: option.splits)
  let ?X = "set_dataAsString (currentString st) (currentTree st)"
  let ?ms = "filter (\<lambda>m. m \<noteq> []) (split_on CHR '';'' a)"
  from assms(2) obtain expanded where
    e: "parseBranch ?X = Inr expanded" and r1: "andThen (parseNodeData (dataAsString expanded)) (\<lambda>d.
       (case ancestors st of
          [] \<Rightarrow> Inl TypeError
        | parent # outer \<Rightarrow>
            Inr \<lparr>currentTree = set_children (children parent @ [set_data d expanded]) parent,
                 ancestors = outer,
                 currentString = dataAsString parent\<rparr>)) = Inr st'"
    unfolding closeBranch_def andThen_Inr_iff by blast
  from r1 obtain d where d: "parseNodeData (dataAsString expanded) = Inr d"
    and r2: "(case ancestors st of
          [] \<Rightarrow> Inl TypeError
        | parent # outer \<Rightarrow>
            Inr \<lparr>currentTree = set_children (children parent @ [set_data d expanded]) parent,
                 ancestors = outer,
                 currentString = dataAsString parent\<rparr>) = Inr st'"
    unfolding andThen_Inr_iff by blast
  from r2 obtain parent outer where anc: "ancestors st = parent # outer"
    and st': "st' = \<lparr>currentTree = set_children (children parent @ [set_data d expanded]) parent,
                 ancestors = outer, currentString = dataAsString parent\<rparr>"
    by (cases "ancestors st") auto
  from e a have "andThen (parseBranch_loop (drop 1 ?ms) (children (currentTree st))) (\<lambda>below.
             Inr (set_children below (set_dataAsString (first ?ms) ?X))) = Inr expanded"
    by (simp add: parseBranch_def set_dataAsString_def Let_def)
  then obtain below where
    b: "parseBranch_loop (drop 1 ?ms) (children (currentTree st)) = Inr below"
    and ex: "expanded = set_children below (set_dataAsString (first ?ms) ?X)"
    unfolding andThen_Inr_iff by auto
  have ms: "list_all (\<lambda>m. m \<noteq> [] \<and> list_all moveChar m) ?ms" using a(2) by (rule filter_moves)
  then have ms1: "list_all (\<lambda>m. m \<noteq> [] \<and> list_all moveChar m) (drop 1 ?ms)"
    by (cases ?ms) simp_all
  have kids: "list_all good (children (currentTree st))" using assms(1) by (simp add: scan_inv_def)
  have gb: "list_all good below" using parseBranch_loop_good [OF ms1 kids b] .
  from d ex obtain m rest where m: "?ms = m # rest"
    by (cases ?ms) (auto simp: first_def set_children_def set_dataAsString_def parseNodeData_def splitBrackets_def)
  with ms have m1: "m \<noteq> []" "list_all moveChar m" by simp_all
  from assms(1) anc have hp: "hasParent (currentTree st)" and pc: "cleanText (dataAsString parent)"
    and pk: "list_all good (children parent)" and so: "stack_ok parent outer"
    by (simp_all add: scan_inv_def)
  have n: "set_data d expanded = SgfTree d below True (Some m)"
    using ex m hp by (simp add: set_data_def set_children_def set_dataAsString_def first_def)
  from d ex m have pd: "parseNodeData (Some m) = Inr d"
    by (simp add: set_children_def set_dataAsString_def first_def)
  have "good (set_data d expanded)" using n gb m1 pd by simp
  moreover have "stack_ok (set_children (children parent @ [set_data d expanded]) parent) outer"
    using so by (cases outer) (simp_all add: set_children_def)
  ultimately show ?thesis using st' pk pc by (simp add: scan_inv_def set_children_def)
qed

lemma scan_char_inv:
  assumes "scan_inv st" and "c \<noteq> CHR 0x0A" and "c \<noteq> CHR 0x09" and "scan_char st c = Inr st'"
  shows "scan_inv st'"
proof -
  consider "c = CHR ''(''" | "c = CHR '')''" | "c \<noteq> CHR ''(''" "c \<noteq> CHR '')''" by blast
  then show ?thesis
  proof cases
    case 1
    with assms(4) have "st' = \<lparr>currentTree = SgfTree [] [] True (Some []),
            ancestors = set_dataAsString (currentString st) (currentTree st) # ancestors st,
            currentString = Some []\<rparr>"
      by (simp add: scan_char_def openBranch_def)
    moreover have "stack_ok (set_dataAsString (currentString st) (currentTree st)) (ancestors st)"
      using assms(1) by (cases "ancestors st") (simp_all add: scan_inv_def set_dataAsString_def)
    ultimately show ?thesis using assms(1)
      by (simp add: scan_inv_def set_dataAsString_def cleanText_def)
  next
    case 2
    with assms(4) have "closeBranch st = Inr st'" by (simp add: scan_char_def)
    with assms(1) show ?thesis by (rule closeBranch_inv)
  next
    case 3
    with assms show ?thesis
      by (auto simp: scan_char_def scan_inv_def cleanText_def js_str_def plainChar_def
          split: option.splits)
  qed
qed

lemma scan_inv_preserved:
  "scan_inv st \<Longrightarrow> CHR 0x0A \<notin> set s \<Longrightarrow> CHR 0x09 \<notin> set s \<Longrightarrow> scan st s = Inr st' \<Longrightarrow> scan_inv st'"
proof (induction s arbitrary: st)
  case Nil
  then show ?case by simp
next
  case (Cons c s)
  from Cons.prems(4) obtain st1 where s1: "scan_char st c = Inr st1" and s2: "scan st1 s = Inr st'"
    by (auto simp: andThen_Inr_iff)
  from Cons.prems(2,3) have c1: "c \<noteq> CHR 0x0A" and c2: "c \<noteq> CHR 0x09" by auto
  have "scan_inv st1" by (rule scan_char_inv [OF Cons.prems(1) c1 c2 s1])
  then show ?case using Cons.IH Cons.prems(2,3) s2 by simp
qed

text \<open>The stack of open ancestors is as deep as the parentheses read so far say.\<close>

lemma closeBranch_depth:
  "closeBranch st = Inr st' \<Longrightarrow> length (ancestors st) = Suc (length (ancestors st'))"
proof -
  assume "closeBranch st = Inr st'"
  then obtain expanded d where "(case ancestors st of
          [] \<Rightarrow> Inl TypeError
        | parent # outer \<Rightarrow>
            Inr \<lparr>currentTree = set_children (children parent @ [set_data d expanded]) parent,
                 ancestors = outer,
                 currentString = dataAsString parent\<rparr>) = Inr st'"
    unfolding closeBranch_def andThen_Inr_iff by blast
  then show ?thesis by (cases "ancestors st") auto
qed

lemma scan_char_depth:
  assumes "scan_char st c = Inr st'"
  shows "depthAfter (length (ancestors st)) (c # s) = depthAfter (length (ancestors st')) s"
proof -
  consider "c = CHR ''(''" | "c = CHR '')''" | "c \<noteq> CHR ''(''" "c \<noteq> CHR '')''" by blast
  then show ?thesis
  proof cases
    case 1
    with assms show ?thesis by (auto simp: scan_char_def openBranch_def)
  next
    case 2
    with assms have "closeBranch st = Inr st'" by (simp add: scan_char_def)
    from closeBranch_depth [OF this] 2 show ?thesis by simp
  next
    case 3
    with assms show ?thesis by (auto simp: scan_char_def)
  qed
qed

lemma scan_depth:
  "scan st s = Inr st' \<Longrightarrow> depthAfter (length (ancestors st)) s = Some (length (ancestors st'))"
proof (induction s arbitrary: st)
  case Nil
  then show ?case by simp
next
  case (Cons c s)
  from Cons.prems obtain st1 where s1: "scan_char st c = Inr st1" and s2: "scan st1 s = Inr st'"
    by (auto simp: andThen_Inr_iff)
  show ?case using scan_char_depth [OF s1, of s] Cons.IH [OF s2] by simp
qed

subsection \<open>The serialization of a good node\<close>

lemma foldl_append_concat:
  "foldl (\<lambda>p c. p @ g c) acc xs = acc @ concat (map g xs)"
  by (induction xs arbitrary: acc) simp_all

lemma wrap_eq: "wrap = (\<lambda>c. ''(;'' @ js_str (toSgf c) @ '')'')"
  by (rule ext) (simp add: wrap_def)

lemma good_raw:
  assumes "good n"
  obtains r where "dataAsString n = Some r" "r \<noteq> []" "list_all moveChar r"
    "parseNodeData (Some r) = Inr (data n)" "hasParent n" "list_all good (children n)"
  using assms by (cases n) (auto split: option.splits)

lemma toSgf_leaf: "good (SgfTree d [] p raw) \<Longrightarrow> toSgf (SgfTree d [] p raw) = Some (js_str raw)"
  by (auto simp: toSgf_node_def notEmpty_def js_str_def split: option.splits)

lemma toSgf_single:
  "p \<Longrightarrow> toSgf (SgfTree d [c] p raw) = Some (js_str raw @ CHR '';'' # js_str (toSgf c))"
  by (simp add: toSgf_node_def notEmpty_def)

lemma toSgf_node_many:
  "2 \<le> length ts \<Longrightarrow>
     toSgf_node True raw ts = Some (js_str raw @ concat (map (\<lambda>c. ''(;'' @ js_str c @ '')'') ts))"
  by (auto simp: toSgf_node_def notEmpty_def foldl_append_concat)

lemma toSgf_many:
  "p \<Longrightarrow> 2 \<le> length kids \<Longrightarrow>
     toSgf (SgfTree d kids p raw) = Some (js_str raw @ concat (map wrap kids))"
  using toSgf_node_many [of "map toSgf kids" raw]
  by (simp add: wrap_eq comp_def)

lemma toSgf_good_Some: "good n \<Longrightarrow> \<exists>txt. toSgf n = Some txt"
proof (cases n rule: spineText.cases)
  case (1 d c p raw)
  then show ?thesis by (simp add: toSgf_node_def notEmpty_def)
next
  case (2 d p raw)
  assume "good n"
  with 2 show ?thesis using toSgf_leaf [of d p raw] by simp
next
  case (3 d v vb vc p raw)
  then show ?thesis by (simp add: toSgf_node_def notEmpty_def)
qed

subsection \<open>Single steps of the scanner\<close>

lemma scan_plain:
  "list_all (\<lambda>c. c \<noteq> CHR ''('' \<and> c \<noteq> CHR '')'') w \<Longrightarrow>
     scan \<lparr>currentTree = X, ancestors = anc, currentString = Some a\<rparr> (w @ rest)
       = scan \<lparr>currentTree = X, ancestors = anc, currentString = Some (a @ w)\<rparr> rest"
  by (induction w arbitrary: a) (simp_all add: scan_char_def js_str_def)

lemma moveChar_plain:
  "list_all moveChar r \<Longrightarrow> list_all (\<lambda>c. c \<noteq> CHR ''('' \<and> c \<noteq> CHR '')'') r"
  by (induction r) (simp_all add: moveChar_def plainChar_def)

lemma scan_close:
  "scan st (CHR '')'' # rest) = andThen (closeBranch st) (\<lambda>st'. scan st' rest)"
  by (simp add: scan_char_def)

lemma scan_open:
  "scan \<lparr>currentTree = X, ancestors = anc, currentString = Some a\<rparr> (CHR ''('' # rest)
     = scan \<lparr>currentTree = SgfTree [] [] True (Some []),
             ancestors = set_dataAsString (Some a) X # anc, currentString = Some []\<rparr> rest"
  by (simp add: scan_char_def openBranch_def)

lemma closeBranch_raw_irrelevant:
  "closeBranch \<lparr>currentTree = set_children k (set_dataAsString z X), ancestors = anc, currentString = cs\<rparr>
     = closeBranch \<lparr>currentTree = set_children k X, ancestors = anc, currentString = cs\<rparr>"
  by (simp add: closeBranch_def set_dataAsString_def set_children_def)

declare scan.simps(2) [simp del]

lemma set_children_same: "children X = k \<Longrightarrow> set_children k X = X"
  by (cases X) (simp add: set_children_def)

subsection \<open>Closing a branch on the text of a chain\<close>

text \<open>
  Splitting the chain text of a good node at the semicolons gives back the raw texts along
  the chain, and the loop of \<open>parseBranch\<close> over them rebuilds the chain.
\<close>

lemma split_on_no_sep: "sep \<notin> set r \<Longrightarrow> split_on sep r = [r]"
  by (induction r) auto

lemma split_on_append: "sep \<notin> set r \<Longrightarrow> split_on sep (r @ sep # s) = r # split_on sep s"
  by (induction r) auto

lemma moveChar_no_sep: "list_all moveChar r \<Longrightarrow> CHR '';'' \<notin> set r"
  by (induction r) (auto simp: moveChar_def)

lemma split_spine:
  "good n \<Longrightarrow> filter (\<lambda>m. m \<noteq> []) (split_on CHR '';'' (spineText n)) = spineRaws n"
proof (induction n rule: spineText.induct)
  case (1 d c p raw)
  then obtain r where r: "raw = Some r" "r \<noteq> []" "list_all moveChar r" and c: "good c"
    by (auto split: option.splits)
  from 1 c have "filter (\<lambda>m. m \<noteq> []) (split_on CHR '';'' (spineText c)) = spineRaws c" by simp
  then show ?case using r by (simp add: js_str_def split_on_append moveChar_no_sep)
next
  case (2 d p raw)
  then show ?case by (auto simp: js_str_def split_on_no_sep moveChar_no_sep split: option.splits)
next
  case (3 d v vb vc p raw)
  then show ?case by (auto simp: js_str_def split_on_no_sep moveChar_no_sep split: option.splits)
qed

lemma loop_spine:
  "good n \<Longrightarrow> parseBranch_loop (spineRaws n) (spineEnd n) = Inr [n]"
proof (induction n rule: spineText.induct)
  case (1 d c p raw)
  then obtain r where r: "raw = Some r" "r \<noteq> []" "parseNodeData (Some r) = Inr d" "p" and c: "good c"
    by (auto split: option.splits)
  from 1 c have "parseBranch_loop (spineRaws c) (spineEnd c) = Inr [c]" by simp
  then show ?case using r by (simp add: js_str_def SgfTree_new_def set_children_def)
next
  case (2 d p raw)
  then show ?case
    by (auto simp: js_str_def SgfTree_new_def set_children_def split: option.splits)
next
  case (3 d v vb vc p raw)
  then show ?case
    by (auto simp: js_str_def SgfTree_new_def set_children_def split: option.splits)
qed

lemma loop_spine_tl:
  "good n \<Longrightarrow> parseBranch_loop (tl (spineRaws n)) (spineEnd n) = Inr (children n)"
proof (cases n rule: spineText.cases)
  case (1 d c p raw)
  assume "good n"
  with 1 have "good c" by simp
  then show ?thesis using 1 by (simp add: loop_spine)
next
  case (2 d p raw)
  then show ?thesis by simp
next
  case (3 d v vb vc p raw)
  then show ?thesis by simp
qed

lemma spineRaws_hd: "dataAsString n = Some r \<Longrightarrow> \<exists>rs. spineRaws n = r # rs"
  by (cases n rule: spineText.cases) (simp_all add: js_str_def)

lemma parseBranch_spine:
  assumes "good n"
  shows "parseBranch (SgfTree [] (spineEnd n) True (Some (CHR '';'' # spineText n)))
           = Inr (SgfTree [] (children n) True (dataAsString n))"
proof -
  from assms obtain r where r: "dataAsString n = Some r" by (rule good_raw)
  then obtain rs where rs: "spineRaws n = r # rs" using spineRaws_hd by blast
  have m: "filter (\<lambda>m. m \<noteq> []) (split_on CHR '';'' (CHR '';'' # spineText n)) = r # rs"
    using split_spine [OF assms] rs by simp
  have "parseBranch_loop rs (spineEnd n) = Inr (children n)"
    using loop_spine_tl [OF assms] rs by simp
  then show ?thesis using r
    unfolding parseBranch_def
    by (simp only: SgfTree.sel option.case m Let_def drop_Suc_Cons drop_0 One_nat_def)
       (simp add: first_def set_children_def set_dataAsString_def)
qed

lemma closeBranch_spine:
  assumes "good n"
  shows "closeBranch \<lparr>currentTree = set_children (spineEnd n) (SgfTree [] [] True (Some [])),
                      ancestors = P # anc, currentString = Some (CHR '';'' # spineText n)\<rparr>
           = Inr \<lparr>currentTree = set_children (children P @ [n]) P, ancestors = anc,
                  currentString = dataAsString P\<rparr>"
proof -
  from assms obtain r where r: "dataAsString n = Some r" "parseNodeData (Some r) = Inr (data n)"
    "hasParent n" by (rule good_raw)
  have n: "SgfTree (data n) (children n) True (Some r) = n"
    using r(1,3) by (cases n) simp
  have e: "set_dataAsString (Some (CHR '';'' # spineText n))
             (set_children (spineEnd n) (SgfTree [] [] True (Some [])))
           = SgfTree [] (spineEnd n) True (Some (CHR '';'' # spineText n))"
    by (simp add: set_dataAsString_def set_children_def)
  show ?thesis
    unfolding closeBranch_def
    by (simp add: e parseBranch_spine [OF assms] r set_data_def n)
qed

subsection \<open>Scanning the serialization of a good node\<close>

lemma group_from_body:
  assumes "good n" and "body_scans n"
  shows "group_scans n"
  unfolding group_scans_def
proof (intro allI)
  fix X anc a rest
  have "scan \<lparr>currentTree = X, ancestors = anc, currentString = Some a\<rparr> (wrap n @ rest)
      = scan \<lparr>currentTree = SgfTree [] [] True (Some []),
               ancestors = set_dataAsString (Some a) X # anc, currentString = Some []\<rparr>
             ([CHR '';''] @ (js_str (toSgf n) @ CHR '')'' # rest))"
    by (simp add: wrap_def scan_open)
  also have "\<dots> = scan \<lparr>currentTree = SgfTree [] [] True (Some []),
               ancestors = set_dataAsString (Some a) X # anc, currentString = Some [CHR '';'']\<rparr>
             (js_str (toSgf n) @ CHR '')'' # rest)"
    using scan_plain [of "[CHR '';'']" "SgfTree [] [] True (Some [])" _ "[]"] by simp
  also have "\<dots> = andThen (closeBranch \<lparr>currentTree = set_children (spineEnd n) (SgfTree [] [] True (Some [])),
                 ancestors = set_dataAsString (Some a) X # anc,
                 currentString = Some ([CHR '';''] @ spineText n)\<rparr>) (\<lambda>st. scan st rest)"
    using assms(2) unfolding body_scans_def by simp
  also have "\<dots> = scan \<lparr>currentTree = set_children (children X @ [n]) (set_dataAsString (Some a) X),
                ancestors = anc, currentString = Some a\<rparr> rest"
    using closeBranch_spine [OF assms(1), of "set_dataAsString (Some a) X" anc]
    by (simp add: set_dataAsString_def set_children_def)
  finally show "scan \<lparr>currentTree = X, ancestors = anc, currentString = Some a\<rparr> (wrap n @ rest)
      = scan \<lparr>currentTree = set_children (children X @ [n]) (set_dataAsString (Some a) X),
                ancestors = anc, currentString = Some a\<rparr> rest" .
qed

lemma scan_groups:
  "(\<And>x. x \<in> set (c # cs) \<Longrightarrow> group_scans x) \<Longrightarrow>
     scan \<lparr>currentTree = X, ancestors = anc, currentString = Some a\<rparr>
          (concat (map wrap (c # cs)) @ rest)
       = scan \<lparr>currentTree = set_children (children X @ c # cs) (set_dataAsString (Some a) X),
               ancestors = anc, currentString = Some a\<rparr> rest"
proof (induction cs arbitrary: c X)
  case Nil
  then have "group_scans c" by simp
  then show ?case unfolding group_scans_def by simp
next
  case (Cons c' cs)
  have q: "group_scans c" using Cons.prems by simp
  let ?X1 = "set_children (children X @ [c]) (set_dataAsString (Some a) X)"
  have "scan \<lparr>currentTree = X, ancestors = anc, currentString = Some a\<rparr>
          (concat (map wrap (c # c' # cs)) @ rest)
      = scan \<lparr>currentTree = X, ancestors = anc, currentString = Some a\<rparr>
          (wrap c @ (concat (map wrap (c' # cs)) @ rest))" by simp
  also have "\<dots> = scan \<lparr>currentTree = ?X1, ancestors = anc, currentString = Some a\<rparr>
          (concat (map wrap (c' # cs)) @ rest)"
    using q unfolding group_scans_def by blast
  also have "\<dots> = scan \<lparr>currentTree = set_children (children ?X1 @ c' # cs) (set_dataAsString (Some a) ?X1),
               ancestors = anc, currentString = Some a\<rparr> rest"
    using Cons.prems by (intro Cons.IH) simp
  also have "set_children (children ?X1 @ c' # cs) (set_dataAsString (Some a) ?X1)
      = set_children (children X @ c # c' # cs) (set_dataAsString (Some a) X)"
    by (simp add: set_children_def set_dataAsString_def)
  finally show ?case .
qed

lemma spine_many:
  "2 \<le> length kids \<Longrightarrow> spineEnd (SgfTree d kids p raw) = kids"
  "2 \<le> length kids \<Longrightarrow> spineText (SgfTree d kids p raw) = js_str raw"
  by (cases kids; cases "tl kids"; simp)+

lemma kids_cases:
  obtains (leaf) "kids = []" | (single) c where "kids = [c]" | (many) "2 \<le> length kids"
proof (cases kids)
  case Nil
  then show ?thesis using that(1) by simp
next
  case (Cons c cs)
  then show ?thesis using that(2,3) by (cases cs) auto
qed

lemma body_scans_good: "good n \<Longrightarrow> body_scans n"
proof (induction n)
  case (SgfTree d kids p raw)
  from SgfTree.prems obtain r where r: "raw = Some r" "r \<noteq> []" "list_all moveChar r"
    and p: "p" and gk: "list_all good kids" by (auto split: option.splits)
  have plain: "list_all (\<lambda>c. c \<noteq> CHR ''('' \<and> c \<noteq> CHR '')'') r" using r(3) by (rule moveChar_plain)
  have IH: "\<And>x. x \<in> set kids \<Longrightarrow> body_scans x" using SgfTree.IH gk by (simp add: list_all_iff)
  have Q: "\<And>x. x \<in> set kids \<Longrightarrow> group_scans x"
    using IH gk group_from_body by (simp add: list_all_iff)
  show ?case unfolding body_scans_def
  proof (intro allI impI)
    fix X anc a rest
    assume X: "children X = []"
    show "scan \<lparr>currentTree = X, ancestors = anc, currentString = Some a\<rparr>
           (js_str (toSgf (SgfTree d kids p raw)) @ CHR '')'' # rest)
        = andThen (closeBranch \<lparr>currentTree = set_children (spineEnd (SgfTree d kids p raw)) X,
                                  ancestors = anc,
                                  currentString = Some (a @ spineText (SgfTree d kids p raw))\<rparr>)
            (\<lambda>st. scan st rest)"
    proof (cases kids rule: kids_cases)
      case leaf
      have t: "js_str (toSgf (SgfTree d kids p raw)) = r"
        using toSgf_leaf [of d p raw] SgfTree.prems leaf r(1) by (simp add: js_str_def)
      have "scan \<lparr>currentTree = X, ancestors = anc, currentString = Some a\<rparr> (r @ CHR '')'' # rest)
          = scan \<lparr>currentTree = X, ancestors = anc, currentString = Some (a @ r)\<rparr> (CHR '')'' # rest)"
        using plain by (rule scan_plain)
      then show ?thesis
        unfolding t using leaf r(1) X
        by (simp add: scan_close js_str_def set_children_same)
    next
      case (single c)
      have t: "js_str (toSgf (SgfTree d kids p raw)) = (r @ [CHR '';'']) @ js_str (toSgf c)"
        using toSgf_single [of p d c raw] p single r(1) by (simp add: js_str_def)
      have pl: "list_all (\<lambda>c. c \<noteq> CHR ''('' \<and> c \<noteq> CHR '')'') (r @ [CHR '';''])"
        using plain by simp
      have "scan \<lparr>currentTree = X, ancestors = anc, currentString = Some a\<rparr>
              ((r @ [CHR '';'']) @ (js_str (toSgf c) @ CHR '')'' # rest))
          = scan \<lparr>currentTree = X, ancestors = anc, currentString = Some (a @ (r @ [CHR '';'']))\<rparr>
              (js_str (toSgf c) @ CHR '')'' # rest)"
        using pl by (rule scan_plain)
      also have "\<dots> = andThen (closeBranch \<lparr>currentTree = set_children (spineEnd c) X, ancestors = anc,
                                  currentString = Some ((a @ (r @ [CHR '';''])) @ spineText c)\<rparr>)
            (\<lambda>st. scan st rest)"
        using IH [of c] single X unfolding body_scans_def by simp
      finally show ?thesis
        unfolding t using single r(1) by (simp add: js_str_def)
    next
      case many
      then obtain c cs where k: "kids = c # cs" by (cases kids) auto
      have t: "js_str (toSgf (SgfTree d kids p raw)) = r @ concat (map wrap kids)"
        using toSgf_many [of p kids d raw] p many r(1) by (simp add: js_str_def)
      have "scan \<lparr>currentTree = X, ancestors = anc, currentString = Some a\<rparr>
              (r @ (concat (map wrap kids) @ CHR '')'' # rest))
          = scan \<lparr>currentTree = X, ancestors = anc, currentString = Some (a @ r)\<rparr>
              (concat (map wrap kids) @ CHR '')'' # rest)"
        using plain by (rule scan_plain)
      also have "\<dots> = scan \<lparr>currentTree = set_children (children X @ kids) (set_dataAsString (Some (a @ r)) X),
               ancestors = anc, currentString = Some (a @ r)\<rparr> (CHR '')'' # rest)"
        unfolding k using Q k by (intro scan_groups) simp
      also have "\<dots> = andThen (closeBranch \<lparr>currentTree = set_children kids X,
               ancestors = anc, currentString = Some (a @ r)\<rparr>) (\<lambda>st. scan st rest)"
        using X by (simp add: scan_close closeBranch_raw_irrelevant)
      finally show ?thesis
        unfolding t using spine_many [OF many, of d p raw] r(1) by (simp add: js_str_def)
    qed
  qed
qed

lemma group_scans_good: "good n \<Longrightarrow> group_scans n"
  by (simp add: group_from_body body_scans_good)

subsection \<open>The groups of the root, joined by commas\<close>

lemma scan_Nil_rec:
  "scan \<lparr>currentTree = X, ancestors = anc, currentString = Some a\<rparr> []
     = Inr \<lparr>currentTree = X, ancestors = anc, currentString = Some a\<rparr>"
  by simp

lemma scan_join:
  "list_all good cs \<Longrightarrow>
     \<exists>X' a'. scan \<lparr>currentTree = X, ancestors = [], currentString = Some a\<rparr>
                (join '','' (map wrap cs))
              = Inr \<lparr>currentTree = X', ancestors = [], currentString = Some a'\<rparr>
        \<and> children X' = children X @ cs \<and> data X' = data X \<and> hasParent X' = hasParent X"
proof (induction cs arbitrary: X a rule: induct_list012)
  case 1
  then show ?case by simp
next
  case (2 c)
  then have "group_scans c" by (simp add: group_scans_good)
  then have "scan \<lparr>currentTree = X, ancestors = [], currentString = Some a\<rparr> (wrap c @ [])
      = scan \<lparr>currentTree = set_children (children X @ [c]) (set_dataAsString (Some a) X),
                ancestors = [], currentString = Some a\<rparr> []"
    unfolding group_scans_def by blast
  then show ?case by (simp add: set_children_def set_dataAsString_def)
next
  case (3 c c' cs)
  from 3(3) have q: "group_scans c" and g: "list_all good (c' # cs)" by (simp_all add: group_scans_good)
  let ?X1 = "set_children (children X @ [c]) (set_dataAsString (Some a) X)"
  have "scan \<lparr>currentTree = X, ancestors = [], currentString = Some a\<rparr>
          (join '','' (map wrap (c # c' # cs)))
      = scan \<lparr>currentTree = X, ancestors = [], currentString = Some a\<rparr>
          (wrap c @ ('','' @ join '','' (map wrap (c' # cs))))" by simp
  also have "\<dots> = scan \<lparr>currentTree = ?X1, ancestors = [], currentString = Some a\<rparr>
          ('','' @ join '','' (map wrap (c' # cs)))"
    using q unfolding group_scans_def by blast
  also have "\<dots> = scan \<lparr>currentTree = ?X1, ancestors = [], currentString = Some (a @ '','')\<rparr>
          (join '','' (map wrap (c' # cs)))"
    by (rule scan_plain) simp
  finally have e: "scan \<lparr>currentTree = X, ancestors = [], currentString = Some a\<rparr>
          (join '','' (map wrap (c # c' # cs)))
     = scan \<lparr>currentTree = ?X1, ancestors = [], currentString = Some (a @ '','')\<rparr>
          (join '','' (map wrap (c' # cs)))" .
  from 3(2) [OF g, of ?X1 "a @ '',''"] obtain X' a' where
    "scan \<lparr>currentTree = ?X1, ancestors = [], currentString = Some (a @ '','')\<rparr>
          (join '','' (map wrap (c' # cs)))
       = Inr \<lparr>currentTree = X', ancestors = [], currentString = Some a'\<rparr>"
    "children X' = children ?X1 @ c' # cs" "data X' = data ?X1" "hasParent X' = hasParent ?X1"
    by blast
  then show ?case unfolding e
    by (simp add: set_children_def set_dataAsString_def)
qed

lemma toSgf_root:
  "toSgf (SgfTree d cs False raw) = Some (join '','' (map wrap cs))"
  by (simp add: toSgf_node_def wrap_eq comp_def)

subsection \<open>The clean-up leaves a serialization as it is\<close>

lemma noNT_simps [simp]:
  "noNT []" "noNT (c # s) = (c \<noteq> CHR 0x0A \<and> c \<noteq> CHR 0x09 \<and> noNT s)"
  "noNT (s @ t) = (noNT s \<and> noNT t)"
  by (auto simp: noNT_def)

lemma noNT_concat: "(\<And>x. x \<in> set xs \<Longrightarrow> noNT x) \<Longrightarrow> noNT (concat xs)"
  by (induction xs) simp_all

lemma noNT_join: "(\<And>x. x \<in> set xs \<Longrightarrow> noNT x) \<Longrightarrow> noNT (join '','' xs)"
  by (induction xs rule: induct_list012) simp_all

lemma noNT_move: "list_all moveChar r \<Longrightarrow> noNT r"
  by (induction r) (auto simp: moveChar_def plainChar_def)

lemma noNT_wrap: "noNT (js_str (toSgf c)) \<Longrightarrow> noNT (wrap c)"
  by (simp add: wrap_def)

lemma good_noNT: "good n \<Longrightarrow> noNT (js_str (toSgf n))"
proof (induction n)
  case (SgfTree d kids p raw)
  from SgfTree.prems obtain r where r: "raw = Some r" "list_all moveChar r"
    and p: "p" and gk: "list_all good kids" by (auto split: option.splits)
  have IH: "\<And>x. x \<in> set kids \<Longrightarrow> noNT (js_str (toSgf x))"
    using SgfTree.IH gk by (simp add: list_all_iff)
  have nr: "noNT r" using r(2) by (rule noNT_move)
  show ?case
  proof (cases kids rule: kids_cases)
    case leaf
    then show ?thesis using toSgf_leaf [of d p raw] SgfTree.prems r(1) nr
      by (simp add: js_str_def)
  next
    case (single c)
    then show ?thesis using toSgf_single [of p d c raw] p r(1) nr IH [of c]
      by (simp add: js_str_def)
  next
    case many
    have "noNT (concat (map wrap kids))"
      by (rule noNT_concat) (auto simp: noNT_wrap IH)
    then show ?thesis using toSgf_many [of p kids d raw] p many r(1) nr
      by (simp add: js_str_def)
  qed
qed

lemma wrap_ends: "wrap c \<noteq> [] \<and> hd (wrap c) = CHR ''('' \<and> last (wrap c) = CHR '')''"
  by (simp add: wrap_def)

lemma join_ends:
  "cs \<noteq> [] \<Longrightarrow> join '','' (map wrap cs) \<noteq> []
     \<and> hd (join '','' (map wrap cs)) = CHR ''(''
     \<and> last (join '','' (map wrap cs)) = CHR '')''"
proof (induction cs rule: induct_list012)
  case 1
  then show ?case by simp
next
  case (2 c)
  then show ?case using wrap_ends [of c] by simp
next
  case (3 c c' cs)
  then show ?case using wrap_ends [of c] by (simp add: hd_append)
qed

lemma trim_id:
  "s = [] \<or> (\<not> isWhiteSpace (hd s) \<and> \<not> isWhiteSpace (last s)) \<Longrightarrow> trim s = s"
proof (cases s)
  case Nil
  then show ?thesis by (simp add: trim_def)
next
  case (Cons c cs)
  assume "s = [] \<or> (\<not> isWhiteSpace (hd s) \<and> \<not> isWhiteSpace (last s))"
  with Cons have a: "\<not> isWhiteSpace c" and b: "\<not> isWhiteSpace (last s)" by simp_all
  from a Cons have 1: "dropWhile isWhiteSpace s = s" by simp
  from Cons obtain ys y where ys: "s = ys @ [y]" by (metis rev_exhaust list.distinct(1))
  with b have 2: "dropWhile isWhiteSpace (rev s) = rev s" by simp
  show ?thesis by (simp add: trim_def 1 2)
qed

lemma sgfCleanup_id:
  assumes "list_all good cs"
  shows "sgfCleanup (join '','' (map wrap cs)) = join '','' (map wrap cs)"
proof -
  let ?s = "join '','' (map wrap cs)"
  have "noNT ?s"
    using assms by (intro noNT_join) (auto simp: list_all_iff noNT_wrap good_noNT)
  then have f: "filter (\<lambda>c. c \<noteq> CHR 0x09) (filter (\<lambda>c. c \<noteq> CHR 0x0A) ?s) = ?s"
    by (auto simp: noNT_def filter_id_conv)
  have t: "trim ?s = ?s"
  proof (cases "cs = []")
    case True
    then show ?thesis by (simp add: trim_def)
  next
    case False
    from join_ends [OF this] show ?thesis
      by (intro trim_id) (simp add: isWhiteSpace_def)
  qed
  show ?thesis unfolding sgfCleanup_def by (simp only: t f)
qed

subsection \<open>The clean-up keeps the balance of the parentheses\<close>

lemma depthAfter_plain:
  "c \<noteq> CHR ''('' \<Longrightarrow> c \<noteq> CHR '')'' \<Longrightarrow> depthAfter d (c # s) = depthAfter d s"
  by simp

lemma depthAfter_filter:
  "(\<And>c. \<not> P c \<Longrightarrow> c \<noteq> CHR ''('' \<and> c \<noteq> CHR '')'') \<Longrightarrow>
     depthAfter d (filter P s) = depthAfter d s"
proof (induction s arbitrary: d)
  case Nil
  then show ?case by simp
next
  case (Cons c s)
  show ?case
  proof (cases "P c")
    case True
    then show ?thesis using Cons by (simp split: nat.splits)
  next
    case False
    with Cons.prems have "c \<noteq> CHR ''('' \<and> c \<noteq> CHR '')''" by blast
    then show ?thesis using False Cons by simp
  qed
qed

lemma depthAfter_dropWhile:
  "(\<And>c. P c \<Longrightarrow> c \<noteq> CHR ''('' \<and> c \<noteq> CHR '')'') \<Longrightarrow>
     depthAfter d (dropWhile P s) = depthAfter d s"
proof (induction s)
  case Nil
  then show ?case by simp
next
  case (Cons c s)
  show ?case
  proof (cases "P c")
    case True
    with Cons.prems have "c \<noteq> CHR ''('' \<and> c \<noteq> CHR '')''" by blast
    then show ?thesis using True Cons by simp
  next
    case False
    then show ?thesis by simp
  qed
qed

lemma depthAfter_only_plain:
  "(\<And>c. c \<in> set w \<Longrightarrow> c \<noteq> CHR ''('' \<and> c \<noteq> CHR '')'') \<Longrightarrow> depthAfter d w = Some d"
  by (induction w) simp_all

lemma depthAfter_append_plain:
  "(\<And>c. c \<in> set w \<Longrightarrow> c \<noteq> CHR ''('' \<and> c \<noteq> CHR '')'') \<Longrightarrow>
     depthAfter d (s @ w) = depthAfter d s"
  by (induction s arbitrary: d) (simp_all add: depthAfter_only_plain split: nat.splits)

lemma white_not_paren: "isWhiteSpace c \<Longrightarrow> c \<noteq> CHR ''('' \<and> c \<noteq> CHR '')''"
  by (auto simp: isWhiteSpace_def)

lemma depthAfter_trim: "depthAfter d (trim s) = depthAfter d s"
proof -
  let ?l = "dropWhile isWhiteSpace s"
  have "rev (dropWhile isWhiteSpace (rev ?l)) @ rev (takeWhile isWhiteSpace (rev ?l)) = ?l"
    by (metis rev_append rev_rev_ident takeWhile_dropWhile_id)
  then have "depthAfter d ?l
      = depthAfter d (rev (dropWhile isWhiteSpace (rev ?l)) @ rev (takeWhile isWhiteSpace (rev ?l)))"
    by simp
  also have "\<dots> = depthAfter d (rev (dropWhile isWhiteSpace (rev ?l)))"
    by (rule depthAfter_append_plain) (auto dest: set_takeWhileD white_not_paren)
  finally have "depthAfter d (trim s) = depthAfter d ?l" by (simp add: trim_def)
  then show ?thesis using depthAfter_dropWhile [of isWhiteSpace d s] white_not_paren by simp
qed

lemma depthAfter_sgfCleanup: "depthAfter d (sgfCleanup s) = depthAfter d s"
proof -
  have 1: "depthAfter d (filter (\<lambda>c. c \<noteq> CHR 0x09) x) = depthAfter d x" for x
    by (rule depthAfter_filter) auto
  have 2: "depthAfter d (filter (\<lambda>c. c \<noteq> CHR 0x0A) x) = depthAfter d x" for x
    by (rule depthAfter_filter) auto
  show ?thesis unfolding sgfCleanup_def by (simp only: 1 2 depthAfter_trim)
qed

subsection \<open>The round trip\<close>

lemma toJson_eq: "toJson x = SgfTreeJson (data x) (map toJson (children x))"
  by (cases x) simp

lemma parseBranches_Inr:
  "parseBranches sgf = Inr t \<longleftrightarrow>
     (\<exists>st. scan \<lparr>currentTree = SgfTree [] [] False (Some []), ancestors = [],
                  currentString = Some []\<rparr> sgf = Inr st \<and> t = currentTree st)"
  by (auto simp: parseBranches_def andThen_Inr_iff)

text \<open>
  C1, the claim as stated: for every well-formed SGF text \<open>s\<close>, parsing the serialization
  of the tree parsed from \<open>s\<close> yields a tree equal to it by structure and properties. It
  fails on \<open>(;C[a(b])\<close>, which the grammar of the specification accepts (a value may hold
  any character but \<open>]\<close>): the scanner takes the parenthesis inside the value for the
  start of a branch, the scan ends inside the outer branch, and the node returned has no
  property and one child. Its serialization is \<open>;C[a;b]\<close>, which parses to a root with no
  child.
\<close>

theorem roundtrip_counterexample:
  "parseSgf ''(;C[a(b])''
       = Inr (SgfTree [] [SgfTree [] [] True (Some ''b]'')] True (Some '';C[a''))
   \<and> toSgf (SgfTree [] [SgfTree [] [] True (Some ''b]'')] True (Some '';C[a''))
       = Some '';C[a;b]''
   \<and> parseSgf '';C[a;b]'' = Inr (SgfTree [] [] False (Some []))
   \<and> toJson (SgfTree [] [] False (Some []))
       \<noteq> toJson (SgfTree [] [SgfTree [] [] True (Some ''b]'')] True (Some '';C[a''))
   \<and> \<not> balanced ''(;C[a(b])''"
  by code_simp

text \<open>
  C1, amended: for every SGF text \<open>s\<close> whose parentheses balance as the scanner counts
  them (every \<open>(\<close> and \<open>)\<close> of the text, those inside bracketed values included, and no
  \<open>)\<close> before its \<open>(\<close>), and that \<open>parseSgf\<close> parses to a tree \<open>t\<close>: \<open>t.toSgf()\<close> is a
  text, \<open>parseSgf\<close> parses that text, and the tree it yields equals \<open>t\<close> by structure and
  properties (the \<open>toJson\<close> projections are equal).
\<close>

theorem roundtrip:
  assumes "balanced s" and "parseSgf s = Inr t"
  shows "\<exists>text t'. toSgf t = Some text \<and> parseSgf text = Inr t' \<and> toJson t' = toJson t"
proof -
  let ?init = "\<lparr>currentTree = SgfTree [] [] False (Some []), ancestors = [],
                  currentString = Some []\<rparr>"
  from assms(2) obtain st where st: "scan ?init (sgfCleanup s) = Inr st" and t: "t = currentTree st"
    by (auto simp: parseSgf_def parseBranches_Inr)
  have i0: "scan_inv ?init" by (simp add: scan_inv_def cleanText_def)
  have "CHR 0x0A \<notin> set (sgfCleanup s)" "CHR 0x09 \<notin> set (sgfCleanup s)"
    by (simp_all add: sgfCleanup_def)
  with i0 st have inv: "scan_inv st" by (intro scan_inv_preserved [of ?init "sgfCleanup s" st])
  from scan_depth [OF st] assms(1) have "ancestors st = []"
    by (simp add: balanced_def depthAfter_sgfCleanup)
  with inv t have root: "\<not> hasParent t" "data t = []" and kids: "list_all good (children t)"
    by (simp_all add: scan_inv_def)
  from root have te: "t = SgfTree [] (children t) False (dataAsString t)" by (cases t) simp
  let ?text = "join '','' (map wrap (children t))"
  have ts: "toSgf t = Some ?text" using toSgf_root [of "[]" "children t" "dataAsString t"] te by simp
  from scan_join [OF kids, of "SgfTree [] [] False (Some [])" "[]"] obtain X' a' where
    sc: "scan ?init ?text = Inr \<lparr>currentTree = X', ancestors = [], currentString = Some a'\<rparr>"
    and X': "children X' = children t" "data X' = []" by auto
  have "parseSgf ?text = Inr X'"
    using sc by (simp add: parseSgf_def sgfCleanup_id [OF kids] parseBranches_def)
  moreover have "toJson X' = toJson t" using X' root(2) by (simp add: toJson_eq [of X'] toJson_eq [of t])
  ultimately show ?thesis using ts by blast
qed

theorem roundtrip_witness:
  "\<exists>text t'. toSgf (SgfTree []
       [SgfTree [(''B'', Single ''aa'')]
         [SgfTree [(''W'', Single ''bb'')] [] True (Some ''W[bb]''),
          SgfTree [(''W'', Single ''cc'')] [] True (Some ''W[cc]'')]
         True (Some ''B[aa]'')]
       False (Some [])) = Some text \<and> parseSgf text = Inr t'
     \<and> toJson t' = toJson (SgfTree []
       [SgfTree [(''B'', Single ''aa'')]
         [SgfTree [(''W'', Single ''bb'')] [] True (Some ''W[bb]''),
          SgfTree [(''W'', Single ''cc'')] [] True (Some ''W[cc]'')]
         True (Some ''B[aa]'')]
       False (Some []))"
proof -
  have b: "balanced ''  (;B[aa](;W[bb])(;W[cc])) ''" by code_simp
  have p: "parseSgf ''  (;B[aa](;W[bb])(;W[cc])) '' = Inr (SgfTree []
       [SgfTree [(''B'', Single ''aa'')]
         [SgfTree [(''W'', Single ''bb'')] [] True (Some ''W[bb]''),
          SgfTree [(''W'', Single ''cc'')] [] True (Some ''W[cc]'')]
         True (Some ''B[aa]'')]
       False (Some []))" by code_simp
  from roundtrip [OF b p] show ?thesis .
qed

end
